theory Spec2Isabelle
  imports Main "HOL-Library.AList" "HOL-Library.Sublist"
begin

section \<open>Common JavaScript notions\<close>

text \<open>
  An \<open>Error\<close> object is represented by its message.  A JavaScript \<open>Map\<close> (and an object
  used as a dictionary with non-numeric keys) is an association list in insertion order:
  \<open>map_of\<close> is \<open>get\<close>, \<open>AList.update\<close> is \<open>set\<close> (an existing key keeps its position, a new
  key goes to the end) and \<open>AList.delete\<close> is \<open>delete\<close>.
\<close>

datatype jserror = Error string

type_synonym 'v jsmap = "(string \<times> 'v) list"

definition map_has :: "'v jsmap \<Rightarrow> string \<Rightarrow> bool" where
  "map_has m k = (map_of m k \<noteq> None)"

definition map_keys :: "'v jsmap \<Rightarrow> string list" where
  "map_keys m = map fst m"

subsection \<open>Strings and object literals\<close>

text \<open>Decimal digits of a natural number, and \<open>String(n)\<close> for an integer \<open>n\<close>.\<close>

definition digit_char :: "nat \<Rightarrow> char" where
  "digit_char d = ''0123456789'' ! d"

function digits_of :: "nat \<Rightarrow> string" where
  "digits_of n = (if n < 10 then [digit_char n] else digits_of (n div 10) @ [digit_char (n mod 10)])"
  by pat_completeness auto
termination
  by (relation "measure (\<lambda>n. n)") auto

declare digits_of.simps [simp del]

definition string_of_int :: "int \<Rightarrow> string" where
  "string_of_int i = (if i < 0 then CHR ''-'' # digits_of (nat (- i)) else digits_of (nat i))"

text \<open>
  An object literal built from a sequence of property definitions, as \<open>{...a, ...b}\<close> is:
  a later definition of a key replaces the value and keeps the key's place.
\<close>

definition object_literal :: "(string \<times> 'v) list \<Rightarrow> (string \<times> 'v) list" where
  "object_literal kvs = foldl (\<lambda>acc kv. AList.update (fst kv) (snd kv) acc) [] kvs"

text \<open>\<open>String.prototype.toLowerCase\<close> on the letters A to Z.\<close>

definition lower_char :: "char \<Rightarrow> char" where
  "lower_char c =
     (case map_of (zip ''ABCDEFGHIJKLMNOPQRSTUVWXYZ'' ''abcdefghijklmnopqrstuvwxyz'') c of
        None \<Rightarrow> c | Some l \<Rightarrow> l)"

definition toLowerCase :: "string \<Rightarrow> string" where
  "toLowerCase s = map lower_char s"



section \<open>Plugin system (plugins.js, class VaniPluginSystem)\<close>

subsection \<open>Data\<close>

text \<open>
  The argument of a hook emission.  \<open>Args\<close> carries what an outside caller passes; the other
  constructors are the payloads the plugin system builds itself.
\<close>

datatype 'a payload =
    Args 'a
  | PluginInitialized string
  | PluginInitFailed string jserror
  | PluginSystemInitialized
  | PluginUnregistered string
  | CommandRegistered string string string
  | HookErrorInfo string string jserror
  | PluginStatusChanged string bool

text \<open>
  A hook function: its optional \<open>priority\<close> property and what a call does, either returning
  a value or throwing.  Handlers are taken to be functions of their arguments: they do not
  change the registry while an emission runs.
\<close>

record ('a, 'r) hook_function =
  hf_priority :: "int option"
  hf_call :: "'a payload \<Rightarrow> jserror + 'r"

text \<open>What \<open>plugin.init(vani, this, options)\<close> does, as far as the registry sees it.\<close>

datatype init_behaviour = InitReturns | InitThrows jserror

record ('a, 'r) plugin_instance =
  p_init :: "init_behaviour option"
  p_hooks :: "('a, 'r) hook_function jsmap option"
  p_commands :: "nat jsmap option"

record plugin_options =
  opt_dependencies :: "string list option"
  opt_autoInit :: "bool option"
  opt_version :: "string option"

record ('a, 'r) plugin_info =
  pi_instance :: "('a, 'r) plugin_instance"
  pi_options :: plugin_options
  pi_enabled :: bool
  pi_version :: string

datatype plugin_status = Registered | Initialized | Failed

text \<open>The entries of \<open>pluginStates\<close>; the time stamps \<open>loadTime\<close> and \<open>initTime\<close> are left out.\<close>

record plugin_state =
  ps_status :: plugin_status
  ps_error :: "string option"

record ('a, 'r) hook_entry =
  he_plugin :: string
  he_function :: "('a, 'r) hook_function"
  he_priority :: int

record ('a, 'r) hook_result =
  hr_plugin :: string
  hr_success :: bool
  hr_result :: "'r option"
  hr_error :: "jserror option"

text \<open>
  The fields of \<open>VaniPluginSystem\<close>, the \<open>commands\<close> table of the framework object it writes
  to, and \<open>emitted\<close>: the hook emissions started without \<open>await\<close>, in the order they were
  started.  Such an emission runs on its own; its results are dropped by the caller.
\<close>

record ('a, 'r) plugin_system =
  plugins :: "('a, 'r) plugin_info jsmap"
  hooks :: "('a, 'r) hook_entry list jsmap"
  pluginStates :: "plugin_state jsmap"
  dependencies :: "string list jsmap"
  pluginLoadOrder :: "string list"
  initialized :: bool
  commands :: "nat jsmap option"
  emitted :: "(string \<times> 'a payload) list"

definition new_plugin_system :: "('a, 'r) plugin_system" where
  "new_plugin_system =
     \<lparr>plugins = [], hooks = [], pluginStates = [], dependencies = [],
      pluginLoadOrder = [], initialized = False, commands = None, emitted = []\<rparr>"

subsection \<open>Hooks\<close>

definition isPluginEnabled :: "('a, 'r) plugin_system \<Rightarrow> string \<Rightarrow> bool" where
  "isPluginEnabled s name =
     (case map_of (plugins s) name of None \<Rightarrow> False | Some info \<Rightarrow> pi_enabled info)"

text \<open>\<open>hookFunction.priority || 50\<close>: an absent priority and the priority 0 both give 50.\<close>

definition priority_or_default :: "int option \<Rightarrow> int" where
  "priority_or_default p = (case p of None \<Rightarrow> 50 | Some n \<Rightarrow> if n = 0 then 50 else n)"

text \<open>
  One step of the \<open>forEach\<close> in \<open>registerHooks\<close>: create the list if missing, push the entry,
  sort the list by priority (\<open>Array.prototype.sort\<close> is stable, as \<open>sort_key\<close> is).
\<close>

definition registerHook ::
  "string \<Rightarrow> string \<times> ('a, 'r) hook_function \<Rightarrow> ('a, 'r) plugin_system \<Rightarrow> ('a, 'r) plugin_system"
where
  "registerHook pluginName e s =
     (let hookName = fst e; hookFunction = snd e;
          hs0 = (if map_has (hooks s) hookName then hooks s
                 else AList.update hookName [] (hooks s));
          old = (case map_of hs0 hookName of None \<Rightarrow> [] | Some l \<Rightarrow> l);
          pushed = old @ [\<lparr>he_plugin = pluginName, he_function = hookFunction,
                           he_priority = priority_or_default (hf_priority hookFunction)\<rparr>]
      in s\<lparr>hooks := AList.update hookName (sort_key he_priority pushed) hs0\<rparr>)"

definition registerHooks ::
  "string \<Rightarrow> ('a, 'r) hook_function jsmap \<Rightarrow> ('a, 'r) plugin_system \<Rightarrow> ('a, 'r) plugin_system"
where
  "registerHooks pluginName hks s = foldl (\<lambda>acc e. registerHook pluginName e acc) s hks"

text \<open>
  The loop of \<open>executeHook\<close> over the subscribers of one hook.  In the \<open>catch\<close> branch,
  \<open>this.executeHook('hook:error', {...})\<close> is a call of \<open>executeHook\<close> from inside the running
  one, not awaited.  It runs the subscribers of \<open>hook:error\<close>, at once up to the first of them
  that returns and the rest later, and one of these that throws starts the next such
  emission in the same way.  Handlers being functions of their arguments, the steps of a
  nested emission change no result of the running one, whenever they are taken; so the
  nested emission is carried out here at the place where it is started, to its end.

  The first argument bounds how deep emissions may be nested; \<open>None\<close> says that the bound
  did not suffice.  When \<open>None\<close> is the answer for every bound, the emissions that are started
  never all come to an end; with subscribers that throw at once, this is a recursion of
  \<open>executeHook\<close> that does not return.  Otherwise the result is the \<open>results\<close> array together
  with the \<open>hook:error\<close> emissions that were started, nested ones included.
\<close>

fun run_hooks ::
  "nat \<Rightarrow> ('a, 'r) plugin_system \<Rightarrow> string \<Rightarrow> 'a payload \<Rightarrow> ('a, 'r) hook_entry list
   \<Rightarrow> (('a, 'r) hook_result list \<times> (string \<times> 'a payload) list) option"
where
  "run_hooks fuel s hookName args [] = Some ([], [])"
| "run_hooks fuel s hookName args (h # hs) =
     (if \<not> isPluginEnabled s (he_plugin h) then run_hooks fuel s hookName args hs
      else
        (case hf_call (he_function h) args of
           Inr v \<Rightarrow>
             (case run_hooks fuel s hookName args hs of
                None \<Rightarrow> None
              | Some (rs, es) \<Rightarrow>
                  Some (\<lparr>hr_plugin = he_plugin h, hr_success = True,
                         hr_result = Some v, hr_error = None\<rparr> # rs, es))
         | Inl err \<Rightarrow>
             (case fuel of
                0 \<Rightarrow> None
              | Suc n \<Rightarrow>
                  (case (case map_of (hooks s) ''hook:error'' of
                           None \<Rightarrow> Some ([], [])
                         | Some ehs \<Rightarrow>
                             run_hooks n s ''hook:error''
                               (HookErrorInfo hookName (he_plugin h) err) ehs) of
                     None \<Rightarrow> None
                   | Some (nested_results, nested) \<Rightarrow>
                       (case run_hooks fuel s hookName args hs of
                          None \<Rightarrow> None
                        | Some (rs, es) \<Rightarrow>
                            Some (\<lparr>hr_plugin = he_plugin h, hr_success = False,
                                   hr_result = None, hr_error = Some err\<rparr> # rs,
                                  (''hook:error'', HookErrorInfo hookName (he_plugin h) err)
                                    # nested @ es))))))"

text \<open>
  \<open>executeHook\<close>.  The inner \<open>None\<close> is the \<open>undefined\<close> returned when nobody subscribed to the
  hook; the outer one is that of \<open>run_hooks\<close>.
\<close>

definition executeHook ::
  "nat \<Rightarrow> ('a, 'r) plugin_system \<Rightarrow> string \<Rightarrow> 'a payload
   \<Rightarrow> (('a, 'r) hook_result list option \<times> ('a, 'r) plugin_system) option"
where
  "executeHook fuel s hookName args =
     (case map_of (hooks s) hookName of
        None \<Rightarrow> Some (None, s)
      | Some hs \<Rightarrow>
          (case run_hooks fuel s hookName args hs of
             None \<Rightarrow> None
           | Some (rs, es) \<Rightarrow> Some (Some rs, s\<lparr>emitted := emitted s @ es\<rparr>)))"

text \<open>
  An emission that a method of the registry starts and does not await,
  \<open>this.executeHook(...)\<close> as a statement: it is recorded, and \<open>executeHook\<close> says what it runs.
\<close>

definition emit :: "string \<Rightarrow> 'a payload \<Rightarrow> ('a, 'r) plugin_system \<Rightarrow> ('a, 'r) plugin_system" where
  "emit hookName args s = s\<lparr>emitted := emitted s @ [(hookName, args)]\<rparr>"

definition setPluginEnabled ::
  "string \<Rightarrow> bool \<Rightarrow> ('a, 'r) plugin_system \<Rightarrow> bool \<times> ('a, 'r) plugin_system" where
  "setPluginEnabled name enabled s =
     (case map_of (plugins s) name of
        Some pluginInfo \<Rightarrow>
          (True, emit ''plugin:status-changed'' (PluginStatusChanged name enabled)
                   (s\<lparr>plugins := AList.update name (pluginInfo\<lparr>pi_enabled := enabled\<rparr>)
                                   (plugins s)\<rparr>))
      | None \<Rightarrow> (False, s))"

subsection \<open>Registration and initialisation\<close>

definition registerCommand ::
  "string \<Rightarrow> string \<times> nat \<Rightarrow> ('a, 'r) plugin_system \<Rightarrow> ('a, 'r) plugin_system"
where
  "registerCommand pluginName c s =
     (let commandName = fst c;
          fullCommandName = pluginName @ '':'' @ commandName;
          tbl = (case commands s of None \<Rightarrow> [] | Some t \<Rightarrow> t)
      in emit ''command:registered'' (CommandRegistered pluginName commandName fullCommandName)
           (s\<lparr>commands := Some (AList.update fullCommandName (snd c) tbl)\<rparr>))"

definition registerCommands ::
  "string \<Rightarrow> nat jsmap \<Rightarrow> ('a, 'r) plugin_system \<Rightarrow> ('a, 'r) plugin_system"
where
  "registerCommands pluginName cmds s =
     foldl (\<lambda>acc c. registerCommand pluginName c acc)
       (case commands s of None \<Rightarrow> s\<lparr>commands := Some []\<rparr> | Some t \<Rightarrow> s) cmds"

text \<open>\<open>{...this.pluginStates.get(name), ...}\<close>: the fields of the old entry, if there is one.\<close>

definition old_state_error :: "('a, 'r) plugin_system \<Rightarrow> string \<Rightarrow> string option" where
  "old_state_error s name =
     (case map_of (pluginStates s) name of None \<Rightarrow> None | Some st \<Rightarrow> ps_error st)"

definition initializePlugin ::
  "string \<Rightarrow> ('a, 'r) plugin_system \<Rightarrow> bool \<times> ('a, 'r) plugin_system"
where
  "initializePlugin name s =
     (case map_of (plugins s) name of
        None \<Rightarrow> (False, s)
      | Some pluginInfo \<Rightarrow>
          if \<not> pi_enabled pluginInfo then (False, s)
          else
            (let plugin = pi_instance pluginInfo in
             case p_init plugin of
               Some (InitThrows (Error msg)) \<Rightarrow>
                 (False,
                  emit ''plugin:init-failed'' (PluginInitFailed name (Error msg))
                    (s\<lparr>pluginStates := AList.update name
                          \<lparr>ps_status = Failed, ps_error = Some msg\<rparr> (pluginStates s)\<rparr>))
             | _ \<Rightarrow>
                 (let s1 = (case p_hooks plugin of None \<Rightarrow> s
                            | Some hks \<Rightarrow> registerHooks name hks s);
                      s2 = (case p_commands plugin of None \<Rightarrow> s1
                            | Some cmds \<Rightarrow> registerCommands name cmds s1);
                      s3 = s2\<lparr>pluginStates := AList.update name
                                 \<lparr>ps_status = Initialized, ps_error = old_state_error s2 name\<rparr>
                                 (pluginStates s2)\<rparr>
                  in (True, emit ''plugin:initialized'' (PluginInitialized name) s3))))"

text \<open>
  \<open>register\<close>.  Nothing inside its \<open>try\<close> block throws (\<open>initializePlugin\<close> catches its own
  faults), so the \<open>catch\<close> branch has no counterpart here.
\<close>

definition register_body ::
  "string \<Rightarrow> ('a, 'r) plugin_instance \<Rightarrow> plugin_options \<Rightarrow> ('a, 'r) plugin_system
   \<Rightarrow> bool \<times> ('a, 'r) plugin_system"
where
  "register_body name plugin options s =
     (let s1 = s\<lparr>plugins := AList.update name
                      \<lparr>pi_instance = plugin, pi_options = options, pi_enabled = True,
                       pi_version = (case opt_version options of None \<Rightarrow> ''1.0.0''
                                     | Some v \<Rightarrow> if v = [] then ''1.0.0'' else v)\<rparr>
                      (plugins s)\<rparr>;
          s2 = s1\<lparr>pluginStates := AList.update name
                      \<lparr>ps_status = Registered, ps_error = None\<rparr> (pluginStates s1)\<rparr>
      in if initialized s2 \<and> opt_autoInit options \<noteq> Some False
         then (True, snd (initializePlugin name s2))
         else (True, s2))"

definition register ::
  "string \<Rightarrow> ('a, 'r) plugin_instance \<Rightarrow> plugin_options \<Rightarrow> ('a, 'r) plugin_system
   \<Rightarrow> bool \<times> ('a, 'r) plugin_system"
where
  "register name plugin options s =
     (if map_has (plugins s) name then (False, s)
      else
        (case opt_dependencies options of
           Some deps \<Rightarrow>
             if filter (\<lambda>dep. \<not> map_has (plugins s) dep) deps \<noteq> [] then (False, s)
             else register_body name plugin options
                    (s\<lparr>dependencies := AList.update name deps (dependencies s)\<rparr>)
         | None \<Rightarrow> register_body name plugin options s))"

text \<open>
  \<open>unregister\<close>.  The plugin's own \<open>cleanup\<close> runs inside a \<open>try\<close> whose \<open>catch\<close> only logs; it
  does not touch the registry.
\<close>

definition unregister :: "string \<Rightarrow> ('a, 'r) plugin_system \<Rightarrow> bool \<times> ('a, 'r) plugin_system" where
  "unregister name s =
     (case map_of (plugins s) name of
        None \<Rightarrow> (False, s)
      | Some pluginInfo \<Rightarrow>
          (let s1 = s\<lparr>hooks := map (\<lambda>(hookName, hs).
                                      (hookName, filter (\<lambda>h. he_plugin h \<noteq> name) hs)) (hooks s)\<rparr>;
               s2 = s1\<lparr>commands := (case commands s1 of None \<Rightarrow> None
                                       | Some t \<Rightarrow> Some (filter (\<lambda>(commandName, c).
                                             \<not> prefix (name @ '':'') commandName) t))\<rparr>;
               s3 = s2\<lparr>plugins := AList.delete name (plugins s2),
                        pluginStates := AList.delete name (pluginStates s2),
                        dependencies := AList.delete name (dependencies s2)\<rparr>
           in (True, emit ''plugin:unregistered'' (PluginUnregistered name) s3)))"

subsection \<open>Load order\<close>

text \<open>
  \<open>determineLoadOrder\<close>.  \<open>visit\<close> is the inner closure; \<open>visit_all\<close> is its \<open>for\<close> loop over
  the dependencies of one plugin.  The set \<open>temp\<close> of the source holds exactly the names of
  the calls of \<open>visit\<close> that are active (added on entry, deleted on normal exit), so it is an
  argument here; \<open>visited\<close> and \<open>order\<close> are threaded through.  A \<open>throw\<close> is \<open>Inl\<close>.
\<close>

definition deps_of :: "string list jsmap \<Rightarrow> string \<Rightarrow> string list" where
  "deps_of deps name = (case map_of deps name of None \<Rightarrow> [] | Some ds \<Rightarrow> ds)"

definition circular :: "string \<Rightarrow> jserror" where
  "circular name = Error (''Circular dependency detected involving plugin: '' @ name)"

lemma deps_of_no_entry: "name \<notin> fst ` set deps \<Longrightarrow> deps_of deps name = []"
  by (simp add: deps_of_def map_of_eq_None_iff[THEN iffD2])

function
  visit :: "string list jsmap \<Rightarrow> string set \<Rightarrow> string
            \<Rightarrow> string set \<times> string list \<Rightarrow> jserror + string set \<times> string list"
and
  visit_all :: "string list jsmap \<Rightarrow> string set \<Rightarrow> string list
                \<Rightarrow> string set \<times> string list \<Rightarrow> jserror + string set \<times> string list"
where
  "visit deps temp name st =
     (if name \<in> temp then Inl (circular name)
      else if name \<notin> fst st then
        (case visit_all deps (insert name temp) (deps_of deps name) st of
           Inl err \<Rightarrow> Inl err
         | Inr st' \<Rightarrow> Inr (insert name (fst st'), snd st' @ [name]))
      else Inr st)"
| "visit_all deps temp [] st = Inr st"
| "visit_all deps temp (dep # ds) st =
     (case visit deps temp dep st of
        Inl err \<Rightarrow> Inl err
      | Inr st' \<Rightarrow> visit_all deps temp ds st')"
  by pat_completeness auto
termination
proof (relation "inv_image (less_than <*lex*> less_than)
     (\<lambda>x. case x of
         Inl (deps, temp, name, st) \<Rightarrow> (card (fst ` set deps - temp), 1::nat)
       | Inr (deps, temp, ds, st) \<Rightarrow> (card (fst ` set deps - temp), 2 * length ds))", goal_cases)
  case 1
  show ?case by (intro wf_inv_image wf_lex_prod wf_less_than)
next
  case (2 deps temp name st)
  show ?case
  proof (cases "name \<in> fst ` set deps")
    case True
    with 2 have "card (fst ` set deps - insert name temp) < card (fst ` set deps - temp)"
      by (intro psubset_card_mono) auto
    then show ?thesis by simp
  next
    case False
    then have "fst ` set deps - insert name temp = fst ` set deps - temp" by auto
    with False show ?thesis by (simp add: deps_of_no_entry)
  qed
next
  case 3
  then show ?case by simp
next
  case 4
  then show ?case by simp
qed

declare visit.simps [simp del]

text \<open>The outer \<open>for\<close> loop over \<open>this.plugins.keys()\<close>; there \<open>temp\<close> is empty.\<close>

fun visit_roots ::
  "string list jsmap \<Rightarrow> string list \<Rightarrow> string set \<times> string list
   \<Rightarrow> jserror + string set \<times> string list"
where
  "visit_roots deps [] st = Inr st"
| "visit_roots deps (name # names) st =
     (if name \<notin> fst st then
        (case visit deps {} name st of
           Inl err \<Rightarrow> Inl err
         | Inr st' \<Rightarrow> visit_roots deps names st')
      else visit_roots deps names st)"

text \<open>
  \<open>determineLoadOrder\<close> assigns \<open>this.pluginLoadOrder\<close> in its last statement only: when
  \<open>visit\<close> throws, no field has been written.
\<close>

definition determineLoadOrder :: "('a, 'r) plugin_system \<Rightarrow> jserror + ('a, 'r) plugin_system" where
  "determineLoadOrder s =
     (case visit_roots (dependencies s) (map_keys (plugins s)) ({}, []) of
        Inl err \<Rightarrow> Inl err
      | Inr st \<Rightarrow> Inr (s\<lparr>pluginLoadOrder := snd st\<rparr>))"

text \<open>
  \<open>initializeAll\<close> returns the fault it throws, if any, and the state it leaves behind.
\<close>

definition initializeAll ::
  "('a, 'r) plugin_system \<Rightarrow> jserror option \<times> ('a, 'r) plugin_system"
where
  "initializeAll s =
     (if initialized s then (None, s)
      else
        (case determineLoadOrder s of
           Inl err \<Rightarrow> (Some err, s)
         | Inr s1 \<Rightarrow>
             (let s2 = foldl (\<lambda>acc name. snd (initializePlugin name acc)) s1 (pluginLoadOrder s1)
              in (None, emit ''plugin-system:initialized'' PluginSystemInitialized
                          (s2\<lparr>initialized := True\<rparr>)))))"

text \<open>
  The dependency mapping as a graph: an edge from a plugin to each of its declared
  dependencies.  In a well-formed registry only registered plugins have an entry in the
  mapping, which \<open>register\<close> and \<open>unregister\<close> maintain.
\<close>

definition dep_edges :: "string list jsmap \<Rightarrow> (string \<times> string) set" where
  "dep_edges deps = {(a, b). b \<in> set (deps_of deps a)}"

definition registry_wf :: "('a, 'r) plugin_system \<Rightarrow> bool" where
  "registry_wf s = (fst ` set (dependencies s) \<subseteq> fst ` set (plugins s))"

text \<open>\<open>topo_rev deps l\<close>: in the reversed load order \<open>l\<close>, every entry's dependencies come later.\<close>

fun topo_rev :: "string list jsmap \<Rightarrow> string list \<Rightarrow> bool" where
  "topo_rev deps [] = True"
| "topo_rev deps (n # earlier) = (set (deps_of deps n) \<subseteq> set earlier \<and> topo_rev deps earlier)"

definition load_inv :: "string list jsmap \<Rightarrow> string set \<times> string list \<Rightarrow> bool" where
  "load_inv deps st = (fst st = set (snd st) \<and> topo_rev deps (rev (snd st)))"

subsection \<open>Example registries\<close>

definition plain_plugin :: "(unit, unit) plugin_instance" where
  "plain_plugin = \<lparr>p_init = Some InitReturns, p_hooks = None, p_commands = None\<rparr>"

definition needs :: "string list \<Rightarrow> plugin_options" where
  "needs ds = \<lparr>opt_dependencies = Some ds, opt_autoInit = None, opt_version = None\<rparr>"

text \<open>Three plugins whose dependencies form a cycle, built with the registry's own operations.\<close>

definition cycle_of_three :: "(unit, unit) plugin_system \<Rightarrow> (unit, unit) plugin_system" where
  "cycle_of_three s0 =
     (let s1 = snd (register ''a'' plain_plugin (needs []) s0);
          s2 = snd (register ''b'' plain_plugin (needs [''a'']) s1);
          s3 = snd (register ''c'' plain_plugin (needs [''b'']) s2);
          s4 = snd (unregister ''a'' s3)
      in snd (register ''a'' plain_plugin (needs [''c'']) s4))"


subsection \<open>What an emission is expected to do\<close>

text \<open>
  The registry keeps every subscriber list sorted by priority; \<open>registerHooks\<close> sorts after
  each push and \<open>unregister\<close> only filters.
\<close>

definition hooks_sorted :: "('a, 'r) plugin_system \<Rightarrow> bool" where
  "hooks_sorted s =
     (\<forall>hookName hs. map_of (hooks s) hookName = Some hs \<longrightarrow> sorted (map he_priority hs))"

definition enabled_subscribers ::
  "('a, 'r) plugin_system \<Rightarrow> ('a, 'r) hook_entry list \<Rightarrow> ('a, 'r) hook_entry list" where
  "enabled_subscribers s hs = filter (\<lambda>h. isPluginEnabled s (he_plugin h)) hs"






text \<open>The priority a subscriber was declared with, \<open>hookFunction.priority\<close>, 50 if there is none.\<close>

definition declared_priority :: "('a, 'r) hook_entry \<Rightarrow> int" where
  "declared_priority h = (case hf_priority (he_function h) of None \<Rightarrow> 50 | Some n \<Rightarrow> n)"

text \<open>Every entry carries the priority that \<open>registerHooks\<close> computes for its function.\<close>

definition hooks_stored :: "('a, 'r) plugin_system \<Rightarrow> bool" where
  "hooks_stored s =
     (\<forall>hookName hs h. map_of (hooks s) hookName = Some hs \<longrightarrow> h \<in> set hs
        \<longrightarrow> he_priority h = priority_or_default (hf_priority (he_function h)))"

subsection \<open>Example subscribers\<close>

definition ticker :: "int option \<Rightarrow> (jserror + nat) \<Rightarrow> (unit, nat) hook_function" where
  "ticker p r = \<lparr>hf_priority = p, hf_call = (\<lambda>args. r)\<rparr>"






section \<open>Router (router.js, class VaniRouter)\<close>

subsection \<open>Route patterns\<close>

text \<open>
  \<open>defineRoute\<close> rewrites the path with \<open>path.replace(/:(\w+)/g, '(?<$1>[^/]+)')\<close> and compiles
  \<open>'^' + pattern + '$'\<close>.  The source of that regular expression is kept as a list of
  tokens: \<open>Grp name\<close> is one inserted group \<open>(?<name>[^/]+)\<close>, \<open>Lit c\<close> is a character of the
  path that was copied.
\<close>

datatype tok = Lit char | Grp string

definition is_word_char :: "char \<Rightarrow> bool" where
  "is_word_char c =
     (c \<in> set ''abcdefghijklmnopqrstuvwxyzABCDEFGHIJKLMNOPQRSTUVWXYZ0123456789_'')"

function tokens :: "string \<Rightarrow> tok list" where
  "tokens [] = []"
| "tokens (c # cs) =
     (if c = CHR '':'' \<and> takeWhile is_word_char cs \<noteq> []
      then Grp (takeWhile is_word_char cs) # tokens (dropWhile is_word_char cs)
      else Lit c # tokens cs)"
  by pat_completeness auto
termination
  by (relation "measure length") (auto simp: length_dropWhile_le less_Suc_eq_le)

declare tokens.simps [simp del]

text \<open>\<open>path.match(/:(\w+)/g)\<close> mapped with \<open>substring(1)\<close>: the parameter names, in order.\<close>

definition param_names :: "string \<Rightarrow> string list" where
  "param_names path = concat (map (\<lambda>t. case t of Grp n \<Rightarrow> [n] | Lit c \<Rightarrow> []) (tokens path))"

text \<open>
  A copied character is regular-expression source.  The characters below have a meaning of
  their own there; a path that contains one of them outside a \<open>:name\<close> is outside the
  fragment of regular expressions that is modelled.
\<close>

definition regex_special :: "char \<Rightarrow> bool" where
  "regex_special c = (c \<in> set [CHR 0x5C, CHR ''^'', CHR ''$'', CHR ''.'', CHR ''|'', CHR ''?'',
                                 CHR ''*'', CHR ''+'', CHR ''('', CHR '')'', CHR ''['', CHR '']'',
                                 CHR ''{'', CHR ''}''])"

definition plain_tokens :: "tok list \<Rightarrow> bool" where
  "plain_tokens ts = list_all (\<lambda>t. case t of Lit c \<Rightarrow> \<not> regex_special c | Grp n \<Rightarrow> True) ts"

text \<open>
  \<open>new RegExp\<close> throws a \<open>SyntaxError\<close> for a group name that starts with a digit and for a
  name that is used twice.
\<close>

definition is_digit :: "char \<Rightarrow> bool" where
  "is_digit c = (c \<in> set ''0123456789'')"

definition valid_group_names :: "string list \<Rightarrow> bool" where
  "valid_group_names ns =
     (list_all (\<lambda>n. case n of [] \<Rightarrow> False | c # cs \<Rightarrow> \<not> is_digit c) ns \<and> distinct ns)"

text \<open>
  \<open>path.match(regex)\<close> for such an expression, anchored at both ends.  A group takes one or
  more characters other than \<open>/\<close>; the longest run is tried first, then shorter ones, as the
  backtracking matcher does.  The result is \<open>match.groups\<close>, or \<open>None\<close> for \<open>null\<close>.
\<close>

fun first_some :: "'a option list \<Rightarrow> 'a option" where
  "first_some [] = None"
| "first_some (None # xs) = first_some xs"
| "first_some (Some x # xs) = Some x"

primrec regex_match :: "tok list \<Rightarrow> string \<Rightarrow> (string \<times> string) list option" where
  "regex_match [] s = (if s = [] then Some [] else None)"
| "regex_match (t # ts) s =
     (case t of
        Lit c \<Rightarrow> (case s of [] \<Rightarrow> None
                  | d # s' \<Rightarrow> if d = c then regex_match ts s' else None)
      | Grp n \<Rightarrow>
          first_some
            (map (\<lambda>k. map_option (\<lambda>g. (n, take k s) # g) (regex_match ts (drop k s)))
                 (rev [1 ..< Suc (length (takeWhile (\<lambda>d. d \<noteq> CHR ''/'') s))])))"

subsection \<open>Router state\<close>

text \<open>
  What a guard does with its context: the calls of \<open>redirect\<close> and \<open>cancel\<close> it makes and the
  fault it throws, in order.  A guard that returns normally ends its list without
  \<open>Cancel\<close> or \<open>Throw\<close>.
\<close>

datatype guard_step = Redirect string | Cancel | Throw jserror

record nav_context =
  ctx_from :: "string option"
  ctx_to :: string
  ctx_params :: "(string \<times> string option) list"

type_synonym guard = "nav_context \<Rightarrow> guard_step list"

record route =
  originalPath :: string
  pattern :: "tok list"
  component :: string
  route_middlewares :: "guard list"
  route_params :: "string list"

datatype nav_event =
    NavigationComplete "string option" string "(string \<times> string option) list" "string list"
  | NavigationError jserror string "string option"

text \<open>
  The fields of \<open>VaniRouter\<close>, and around them: \<open>location_hash\<close> is \<open>window.location.hash\<close>,
  \<open>has_pluginSystem\<close> says whether \<open>this.vani.pluginSystem\<close> is set, and \<open>nav_events\<close> lists the
  hooks \<open>navigate\<close> has emitted.
\<close>

record router =
  routes :: "route jsmap"
  history :: "string list"
  currentRoute :: "string option"
  previousRoute :: "string option"
  routerMiddlewares :: "guard list"
  params :: "(string \<times> string option) list"
  navigationLock :: bool
  location_hash :: string
  has_pluginSystem :: bool
  nav_events :: "nav_event list"

definition new_router :: router where
  "new_router = \<lparr>routes = [], history = [], currentRoute = None, previousRoute = None,
                  routerMiddlewares = [], params = [], navigationLock = False,
                  location_hash = [], has_pluginSystem = True, nav_events = []\<rparr>"

text \<open>
  \<open>defineRoute\<close>.  \<open>Inl\<close>: the \<open>RegExp\<close> constructor throws.  \<open>None\<close>: the call is outside what is
  modelled.  That is so for a path with a regular-expression metacharacter (see above) and
  for the path \<open>__proto__\<close>: the assignment \<open>this.routes['__proto__'] = {...}\<close> adds no entry, it
  replaces the prototype of the table.  The default props of a route play no part in
  matching and are left out; \<open>component\<close> is the name of the component function.
\<close>

definition defineRoute ::
  "string \<Rightarrow> string \<Rightarrow> guard list \<Rightarrow> router \<Rightarrow> (jserror + router) option" where
  "defineRoute path comp_name middlewares s =
     (if \<not> plain_tokens (tokens path) \<or> path = ''__proto__'' then None
      else if \<not> valid_group_names (param_names path)
      then Some (Inl (Error ''SyntaxError: Invalid regular expression''))
      else Some (Inr (s\<lparr>routes := AList.update path
                \<lparr>originalPath = path, pattern = tokens path, component = comp_name,
                 route_middlewares = middlewares, route_params = param_names path\<rparr>
                (routes s)\<rparr>)))"

definition useRouterMiddleware :: "guard \<Rightarrow> router \<Rightarrow> router" where
  "useRouterMiddleware middleware s = s\<lparr>routerMiddlewares := routerMiddlewares s @ [middleware]\<rparr>"

subsection \<open>Matching\<close>

text \<open>
  The route table \<open>this.routes\<close> is a plain object, created by \<open>{}\<close>.  Reading
  \<open>this.routes[path]\<close> finds the entry that \<open>defineRoute\<close> has put under that key and, when
  there is none, the property of that name that every object inherits from
  \<open>Object.prototype\<close>.  Each of these is a function or an object, so the test
  \<open>if (this.routes[path])\<close> succeeds for it as it does for a route.
\<close>

datatype route_value = RouteRecord route | Inherited string

definition object_prototype_names :: "string list" where
  "object_prototype_names =
     [''constructor'', ''__defineGetter__'', ''__defineSetter__'', ''hasOwnProperty'',
      ''__lookupGetter__'', ''__lookupSetter__'', ''isPrototypeOf'', ''propertyIsEnumerable'',
      ''toString'', ''valueOf'', ''__proto__'', ''toLocaleString'']"

definition routes_get :: "router \<Rightarrow> string \<Rightarrow> route_value option" where
  "routes_get s path =
     (case map_of (routes s) path of
        Some r \<Rightarrow> Some (RouteRecord r)
      | None \<Rightarrow> if path \<in> set object_prototype_names then Some (Inherited path) else None)"

text \<open>
  \<open>Object.entries(this.routes)\<close> lists the entries of the table itself: first those whose
  key is an array index (the decimal numeral of a number below 4294967295), in ascending
  order, then all others in the order in which they were added.
\<close>

definition decimal :: "string \<Rightarrow> nat" where
  "decimal k = foldl (\<lambda>n c. 10 * n + (of_char c - 48)) 0 k"

definition is_array_index :: "string \<Rightarrow> bool" where
  "is_array_index k =
     (case k of
        [] \<Rightarrow> False
      | c # cs \<Rightarrow> list_all is_digit k \<and> (c = CHR ''0'' \<and> cs = [] \<or> c \<noteq> CHR ''0'')
                 \<and> decimal k < 2 ^ 32 - 1)"

definition object_entries :: "'v jsmap \<Rightarrow> 'v jsmap" where
  "object_entries m =
     sort_key (\<lambda>kv. decimal (fst kv)) (filter (\<lambda>kv. is_array_index (fst kv)) m)
     @ filter (\<lambda>kv. \<not> is_array_index (fst kv)) m"

text \<open>The \<open>for\<close> loop of \<open>findMatchingRoute\<close> over the entries.\<close>

fun match_entries ::
  "route jsmap \<Rightarrow> string \<Rightarrow> route_value option \<times> (string \<times> string option) list" where
  "match_entries [] path = (None, [])"
| "match_entries ((routePath, r) # rest) path =
     (case regex_match (pattern r) path of
        Some groups \<Rightarrow>
          (Some (RouteRecord r), map (\<lambda>param. (param, map_of groups param)) (route_params r))
      | None \<Rightarrow> match_entries rest path)"

definition findMatchingRoute ::
  "router \<Rightarrow> string \<Rightarrow> route_value option \<times> (string \<times> string option) list" where
  "findMatchingRoute s path =
     (case routes_get s path of
        Some v \<Rightarrow> (Some v, [])
      | None \<Rightarrow> match_entries (object_entries (routes s)) path)"

subsection \<open>Navigation\<close>

definition cancelled :: jserror where
  "cancelled = Error ''Navigation cancelled''"

text \<open>The statements of \<open>navigate\<close> after the guards: history, current route, location, hook.\<close>

definition commit_navigation ::
  "string \<Rightarrow> bool \<Rightarrow> (string \<times> string option) list \<Rightarrow> router \<Rightarrow> router" where
  "commit_navigation path replace ps s =
     (let s1 = s\<lparr>history := (if replace \<and> history s \<noteq> []
                              then (history s)[length (history s) - 1 := path]
                              else history s @ [path])\<rparr>;
          s2 = s1\<lparr>currentRoute := Some path, params := ps, location_hash := path\<rparr>
      in if has_pluginSystem s2
         then s2\<lparr>nav_events := nav_events s2 @
                   [NavigationComplete (previousRoute s2) path ps (history s2)]\<rparr>
         else s2)"

text \<open>The \<open>catch\<close> block of \<open>navigate\<close>.\<close>

definition catch_navigation :: "jserror \<Rightarrow> string \<Rightarrow> router \<Rightarrow> router" where
  "catch_navigation err path s =
     (if err \<noteq> cancelled \<and> has_pluginSystem s
      then s\<lparr>nav_events := nav_events s @ [NavigationError err path (currentRoute s)]\<rparr>
      else s)"

text \<open>
  \<open>navigate(path, replace, {force})\<close>.  \<open>run_guard\<close> carries out what one guard does:
  \<open>redirect(url)\<close> is \<open>this.navigate(url, false, {force: true})\<close>, a call of \<open>navigate\<close> from inside
  the running attempt; \<open>cancel()\<close> throws.  \<open>run_middlewares\<close> is the \<open>for\<close> loop over
  \<open>this.routerMiddlewares\<close>.  Both return the state and the fault that ended them, if any.
\<close>

function
  navigate :: "router \<Rightarrow> string \<Rightarrow> bool \<Rightarrow> bool \<Rightarrow> router"
and
  run_guard :: "router \<Rightarrow> guard_step list \<Rightarrow> router \<times> jserror option"
and
  run_middlewares :: "router \<Rightarrow> nav_context \<Rightarrow> guard list \<Rightarrow> router \<times> jserror option"
where
  "navigate s path replace force =
     (if navigationLock s then s
      else if currentRoute s = Some path \<and> \<not> force then s
      else
        (case findMatchingRoute (s\<lparr>navigationLock := True\<rparr>) path of
           (None, ps) \<Rightarrow>
             (navigate (s\<lparr>navigationLock := True\<rparr>) ''/404'' False True)\<lparr>navigationLock := False\<rparr>
         | (Some r, ps) \<Rightarrow>
             (case run_middlewares (s\<lparr>navigationLock := True\<rparr>)
                     \<lparr>ctx_from = currentRoute s, ctx_to = path, ctx_params = ps\<rparr>
                     (routerMiddlewares s) of
                (s', Some err) \<Rightarrow> (catch_navigation err path s')\<lparr>navigationLock := False\<rparr>
              | (s', None) \<Rightarrow> (commit_navigation path replace ps s')\<lparr>navigationLock := False\<rparr>)))"
| "run_guard s [] = (s, None)"
| "run_guard s (Redirect url # rest) = run_guard (navigate s url False True) rest"
| "run_guard s (Cancel # rest) = (s, Some cancelled)"
| "run_guard s (Throw err # rest) = (s, Some err)"
| "run_middlewares s ctx [] = (s, None)"
| "run_middlewares s ctx (middleware # rest) =
     (case run_guard s (middleware ctx) of
        (s', Some err) \<Rightarrow> (s', Some err)
      | (s', None) \<Rightarrow> run_middlewares s' ctx rest)"
  by pat_completeness auto

lemma navigate_keeps_lock:
  "navigate_run_guard_run_middlewares_dom (Inl (s, path, replace, force)) \<Longrightarrow>
     navigationLock (navigate s path replace force) = navigationLock s"
  "navigate_run_guard_run_middlewares_dom (Inr (Inl (s, steps))) \<Longrightarrow>
     navigationLock (fst (run_guard s steps)) = navigationLock s"
  "navigate_run_guard_run_middlewares_dom (Inr (Inr (s, ctx, ms))) \<Longrightarrow>
     navigationLock (fst (run_middlewares s ctx ms)) = navigationLock s"
proof (induction s path replace force and s steps and s ctx ms rule: navigate_run_guard_run_middlewares.pinduct)
  case (1 s path replace force)
  then show ?case
    by (auto simp: navigate.psimps split: prod.splits option.splits)
next
  case (2 s)
  then show ?case by (simp add: run_guard.psimps)
next
  case (3 s url rest)
  then show ?case by (simp add: run_guard.psimps)
next
  case (4 s rest)
  then show ?case by (simp add: run_guard.psimps)
next
  case (5 s err rest)
  then show ?case by (simp add: run_guard.psimps)
next
  case (6 s ctx)
  then show ?case by (simp add: run_middlewares.psimps)
next
  case (7 s ctx middleware rest)
  then show ?case by (auto simp: run_middlewares.psimps split: prod.splits option.splits)
qed

termination navigate
proof (relation "inv_image (less_than <*lex*> less_than <*lex*> less_than)
     (\<lambda>x. case x of
         Inl (s, path, replace, force) \<Rightarrow> (if navigationLock s then 0 else 1::nat, 0::nat, 0::nat)
       | Inr (Inl (s, steps)) \<Rightarrow> (if navigationLock s then 0 else 1, 1, length steps)
       | Inr (Inr (s, ctx, ms)) \<Rightarrow> (if navigationLock s then 0 else 1, 2, length ms))", goal_cases)
  case 1
  show ?case by (intro wf_inv_image wf_lex_prod wf_less_than)
next
  case 2 then show ?case by simp
next
  case 3 then show ?case by simp
next
  case 4 then show ?case by simp
next
  case (5 s url rest)
  then show ?case by (simp add: navigate_keeps_lock(1))
next
  case 6 then show ?case by simp
next
  case (7 s ctx middleware rest x y)
  from 7(1) have "x = fst (run_guard s (middleware ctx))" by (metis fst_conv)
  with navigate_keeps_lock(2)[OF 7(3)] show ?case by simp
qed


declare navigate.simps [simp del]

text \<open>
  \<open>back()\<close> is \<open>back_router\<close>.  \<open>back_pop\<close> is what it does before it calls \<open>navigate\<close>: the
  two \<open>pop\<close>s and the choice of the target, \<open>previous || '/'\<close>.
\<close>

definition back_pop :: "router \<Rightarrow> router \<times> string" where
  "back_pop s =
     (if length (history s) > 1
      then (let h1 = butlast (history s); previous = last h1
            in (s\<lparr>history := butlast h1\<rparr>, if previous = [] then ''/'' else previous))
      else (s, ''/''))"

definition back_router :: "router \<Rightarrow> router" where
  "back_router s = (case back_pop s of (s', target) \<Rightarrow> navigate s' target False False)"

definition setNavigationLock :: "bool \<Rightarrow> router \<Rightarrow> router" where
  "setNavigationLock locked s = s\<lparr>navigationLock := locked\<rparr>"

subsection \<open>What matching is expected to do\<close>

text \<open>
  \<open>fill ts g\<close> writes the pattern out with the groups replaced by the captured texts \<open>g\<close>,
  each of them non-empty and free of \<open>/\<close>.
\<close>

fun fill :: "tok list \<Rightarrow> (string \<times> string) list \<Rightarrow> string option" where
  "fill [] g = (if g = [] then Some [] else None)"
| "fill (Lit c # ts) g = map_option ((#) c) (fill ts g)"
| "fill (Grp n # ts) [] = None"
| "fill (Grp n # ts) ((m, v) # g) =
     (if m = n \<and> v \<noteq> [] \<and> CHR ''/'' \<notin> set v then map_option ((@) v) (fill ts g) else None)"

text \<open>The first entry, in registration order, whose pattern matches the whole path.\<close>

definition first_pattern_match ::
  "route jsmap \<Rightarrow> string \<Rightarrow> route_value option \<times> (string \<times> string option) list" where
  "first_pattern_match rs path =
     (case find (\<lambda>(p, r). regex_match (pattern r) path \<noteq> None) rs of
        None \<Rightarrow> (None, [])
      | Some (p, r) \<Rightarrow>
          (case regex_match (pattern r) path of
             None \<Rightarrow> (None, [])
           | Some g \<Rightarrow> (Some (RouteRecord r), map (\<lambda>n. (n, map_of g n)) (route_params r))))"

text \<open>An entry of the route table as \<open>defineRoute\<close> writes it.\<close>

definition defined_route :: "string \<Rightarrow> route \<Rightarrow> bool" where
  "defined_route p r =
     (originalPath r = p \<and> pattern r = tokens p \<and> route_params r = param_names p
      \<and> plain_tokens (tokens p) \<and> p \<noteq> ''__proto__'' \<and> valid_group_names (param_names p))"

text \<open>A route table all of whose entries were written by \<open>defineRoute\<close>.\<close>

definition defined_table :: "router \<Rightarrow> bool" where
  "defined_table s = list_all (\<lambda>(p, r). defined_route p r) (routes s)"

subsection \<open>Example routers\<close>

definition literal_route :: "string \<Rightarrow> string \<Rightarrow> route" where
  "literal_route path c = \<lparr>originalPath = path, pattern = tokens path, component = c,
                            route_middlewares = [], route_params = []\<rparr>"

definition defineRoutes :: "(string \<times> string) list \<Rightarrow> router \<Rightarrow> router" where
  "defineRoutes defs s =
     foldl (\<lambda>acc (path, comp_name).
              case defineRoute path comp_name [] acc of Some (Inr s') \<Rightarrow> s' | _ \<Rightarrow> acc) s defs"

definition item_router :: router where
  "item_router = defineRoutes [(''/'', ''Home''), (''/item/:id'', ''Item''), (''/item/new'', ''NewItem'')]
                   new_router"

text \<open>A guard that sends every visit of \<open>/secret\<close> to \<open>/login\<close> and cancels it.\<close>

definition auth_guard :: guard where
  "auth_guard ctx = (if ctx_to ctx = ''/secret'' then [Redirect ''/login'', Cancel] else [])"

definition guarded_router :: router where
  "guarded_router =
     navigate
       (useRouterMiddleware auth_guard
          (defineRoutes [(''/'', ''Home''), (''/secret'', ''Secret''), (''/login'', ''LoginForm'')]
             new_router))
       ''/'' False False"


text \<open>A router that has visited \<open>/\<close>, \<open>/a\<close> and \<open>/b\<close>.\<close>

definition visited_router :: router where
  "visited_router =
     navigate
       (navigate
          (navigate (defineRoutes [(''/'', ''Home''), (''/a'', ''A''), (''/b'', ''B'')] new_router)
             ''/'' False False)
          ''/a'' False False)
       ''/b'' False False"

section \<open>State store (useState of class VaniJS)\<close>

text \<open>
  The values a screen keeps as state.  An object is the list of its own properties, whose
  keys are distinct; arrays are not modelled.
\<close>

datatype jsval =
    JUndefined | JNull | JBool bool | JNum int | JStr string | JObj "(string \<times> jsval) list"

definition falsy :: "jsval \<Rightarrow> bool" where
  "falsy v = (v = JUndefined \<or> v = JNull \<or> v = JBool False \<or> v = JNum 0 \<or> v = JStr [])"

text \<open>The own enumerable properties that \<open>...v\<close> copies into an object literal.\<close>

definition own_props :: "jsval \<Rightarrow> (string \<times> jsval) list" where
  "own_props v =
     (case v of
        JObj kvs \<Rightarrow> kvs
      | JStr s \<Rightarrow> map (\<lambda>i. (digits_of i, JStr [s ! i])) [0 ..< length s]
      | _ \<Rightarrow> [])"

text \<open>The argument of \<open>useState\<close> and of the updater: a function, or any other value.\<close>

datatype init_arg = InitProducer "unit \<Rightarrow> jsval" | InitValue jsval

datatype set_arg = Producer "jsval \<Rightarrow> jsval" | Partial jsval

datatype state_effect =
    HookStateCreate string jsval
  | HookStateUpdate string jsval jsval
  | OnStateCreate string string jsval
  | OnStateUpdate string string jsval jsval
  | HandleRoute

text \<open>
  The part of the framework object that \<open>useState\<close> reads and writes.  \<open>legacy_plugins\<close> are the
  entries of \<open>this.plugins\<close> with the flags "has \<open>onStateCreate\<close>" and "has \<open>onStateUpdate\<close>";
  \<open>state_effects\<close> lists the hooks emitted, the plugin callbacks called and the re-renders
  requested.
\<close>

record vani_state =
  state :: "jsval jsmap"
  currentComponent :: "string option"
  state_pluginSystem :: bool
  legacy_plugins :: "(bool \<times> bool) jsmap"
  state_rootElement :: bool
  state_effects :: "state_effect list"

definition state_get :: "vani_state \<Rightarrow> string \<Rightarrow> jsval" where
  "state_get s k = (case map_of (state s) k of None \<Rightarrow> JUndefined | Some v \<Rightarrow> v)"

definition updateComponent :: "string \<Rightarrow> vani_state \<Rightarrow> vani_state" where
  "updateComponent componentName s =
     (if state_rootElement s \<and> currentComponent s = Some componentName
      then s\<lparr>state_effects := state_effects s @ [HandleRoute]\<rparr> else s)"

text \<open>
  \<open>useState\<close> returns the pair of the current value and the updater; the updater is the
  closure \<open>setState\<close> over \<open>stateKey\<close>, so the key stands for it here.
\<close>

definition useState :: "init_arg \<Rightarrow> vani_state \<Rightarrow> jserror + (jsval \<times> string) \<times> vani_state" where
  "useState initialState s =
     (case currentComponent s of
        None \<Rightarrow> Inl (Error ''useState must be called within a component'')
      | Some componentName \<Rightarrow>
          if componentName = [] then Inl (Error ''useState must be called within a component'')
          else
            (let stateKey = componentName @ ''_state'';
                 s' = (if falsy (state_get s stateKey)
                       then
                         (let v = (case initialState of InitProducer f \<Rightarrow> f () | InitValue v \<Rightarrow> v);
                              s1 = s\<lparr>state := AList.update stateKey v (state s)\<rparr>;
                              s2 = (if state_pluginSystem s1
                                    then s1\<lparr>state_effects := state_effects s1 @ [HookStateCreate stateKey v]\<rparr>
                                    else s1)
                          in s2\<lparr>state_effects := state_effects s2 @
                                 map (\<lambda>(name, flags). OnStateCreate name stateKey v)
                                     (filter (\<lambda>(name, flags). fst flags) (legacy_plugins s2))\<rparr>)
                       else s)
             in Inr ((state_get s' stateKey, stateKey), s')))"

definition setState :: "string \<Rightarrow> set_arg \<Rightarrow> vani_state \<Rightarrow> vani_state" where
  "setState stateKey newState s =
     (let oldState = state_get s stateKey;
          v = (case newState of
                 Producer f \<Rightarrow> f oldState
               | Partial n \<Rightarrow> JObj (object_literal (own_props oldState @ own_props n)));
          s1 = s\<lparr>state := AList.update stateKey v (state s)\<rparr>;
          s2 = (if state_pluginSystem s1
                then s1\<lparr>state_effects := state_effects s1 @ [HookStateUpdate stateKey oldState v]\<rparr>
                else s1);
          s3 = s2\<lparr>state_effects := state_effects s2 @
                 map (\<lambda>(name, flags). OnStateUpdate name stateKey oldState v)
                     (filter (\<lambda>(name, flags). snd flags) (legacy_plugins s2))\<rparr>
      in (case currentComponent s3 of
            None \<Rightarrow> s3
          | Some c \<Rightarrow> if c = [] then s3 else updateComponent c s3))"

definition new_vani_state :: vani_state where
  "new_vani_state = \<lparr>state = [], currentComponent = None, state_pluginSystem = True,
                      legacy_plugins = [], state_rootElement = True, state_effects = []\<rparr>"

text \<open>The screen \<open>Counter\<close> is being evaluated and asks for the state \<open>{a: 1}\<close>.\<close>

definition counter_state :: vani_state where
  "counter_state =
     (case useState (InitValue (JObj [(''a'', JNum 1)]))
             (new_vani_state\<lparr>currentComponent := Some ''Counter''\<rparr>) of
        Inr (r, s) \<Rightarrow> s | Inl e \<Rightarrow> new_vani_state)"


section \<open>Virtual DOM (createDOM, patch, updateProperties, render of class VaniJS)\<close>

subsection \<open>Virtual nodes\<close>

text \<open>
  The value of a property.  A function is known by an identity and its source text, an
  object (a \<open>style\<close> object) by an identity and its entries; \<open>===\<close> on two such values compares
  the identities, which equality of these terms does as long as one identity is not used
  for two different values.
\<close>

datatype pval =
    PUndefined | PNull | PBool bool | PNum int | PStr string
  | PFun nat string
  | PObj nat "(string \<times> string) list"

type_synonym props = "(string \<times> pval) list"

text \<open>
  A virtual node is a string, a number, an element or a component.  \<open>VComponent f r ps cs\<close>
  has the function \<open>f\<close> as its tag, and \<open>r\<close> is what \<open>tag(props)\<close> returns.  Nodes are as
  \<open>createElement\<close> builds them: \<open>vnode.key\<close> is \<open>props.key\<close>, and the children hold no \<open>null\<close>,
  \<open>undefined\<close> or boolean.  Tag names are names \<open>document.createElement\<close> accepts, property names
  are names \<open>setAttribute\<close> accepts.
\<close>

datatype vnode =
    VText string
  | VNumber int
  | VElement string props "vnode list"
  | VComponent nat vnode props "vnode list"

definition get_prop :: "props \<Rightarrow> string \<Rightarrow> pval" where
  "get_prop ps k = (case map_of ps k of None \<Rightarrow> PUndefined | Some v \<Rightarrow> v)"

fun vnode_props :: "vnode \<Rightarrow> props" where
  "vnode_props (VElement t ps cs) = ps"
| "vnode_props (VComponent f r ps cs) = ps"
| "vnode_props v = []"

fun vnode_children :: "vnode \<Rightarrow> vnode list" where
  "vnode_children (VElement t ps cs) = cs"
| "vnode_children (VComponent f r ps cs) = cs"
| "vnode_children v = []"

definition vnode_key :: "vnode \<Rightarrow> pval" where
  "vnode_key v = get_prop (vnode_props v) ''key''"

text \<open>\<open>!vnode\<close>: an absent node, the empty string and the number 0 are falsy.\<close>

fun absent :: "vnode option \<Rightarrow> bool" where
  "absent None = True"
| "absent (Some (VText s)) = (s = [])"
| "absent (Some (VNumber n)) = (n = 0)"
| "absent (Some v) = False"

definition pfalsy :: "pval \<Rightarrow> bool" where
  "pfalsy v = (v = PUndefined \<or> v = PNull \<or> v = PBool False \<or> v = PNum 0 \<or> v = PStr [])"

fun is_function :: "pval \<Rightarrow> bool" where
  "is_function (PFun f src) = True"
| "is_function v = False"

text \<open>\<open>typeof v === 'object'\<close>, which holds for \<open>null\<close> as well.\<close>

fun is_object :: "pval \<Rightarrow> bool" where
  "is_object (PObj i kvs) = True"
| "is_object PNull = True"
| "is_object v = False"

fun js_String :: "pval \<Rightarrow> string" where
  "js_String PUndefined = ''undefined''"
| "js_String PNull = ''null''"
| "js_String (PBool b) = (if b then ''true'' else ''false'')"
| "js_String (PNum n) = string_of_int n"
| "js_String (PStr s) = s"
| "js_String (PFun f src) = src"
| "js_String (PObj i kvs) = ''[object Object]''"

subsection \<open>Host nodes\<close>

text \<open>
  A host node is a text node or an element.  Both are event targets and carry their
  listeners, as pairs of event type and function identity.  An element has its attributes
  (\<open>className\<close> is the attribute \<open>class\<close>), the declarations set through \<open>element.style\<close>, and its
  children.  A text node remembers whether a property \<open>style\<close> was assigned to it: that is an
  ordinary property of the JavaScript object and shows nowhere in the document.
\<close>

datatype hnode =
    HText string "(string \<times> nat) list" bool
  | HElement string "(string \<times> string) list" "(string \<times> string) list"
             "(string \<times> nat) list" "hnode list"

definition createTextNode :: "string \<Rightarrow> hnode" where
  "createTextNode s = HText s [] False"

definition createElement_host :: "string \<Rightarrow> hnode" where
  "createElement_host t = HElement t [] [] [] []"

definition type_error :: jserror where
  "type_error = Error ''TypeError''"

definition hierarchy_error :: jserror where
  "hierarchy_error = Error ''HierarchyRequestError''"

text \<open>
  The host operations.  Each returns the node after the call and the fault thrown, if any.
\<close>

fun addEventListener :: "string \<Rightarrow> pval \<Rightarrow> hnode \<Rightarrow> hnode \<times> jserror option" where
  "addEventListener ty (PFun f src) (HText s ls e) =
     (HText s (if (ty, f) \<in> set ls then ls else ls @ [(ty, f)]) e, None)"
| "addEventListener ty (PFun f src) (HElement t as st ls cs) =
     (HElement t as st (if (ty, f) \<in> set ls then ls else ls @ [(ty, f)]) cs, None)"
| "addEventListener ty v h =
     (h, if v = PNull \<or> v = PUndefined \<or> is_object v then None else Some type_error)"

fun removeEventListener :: "string \<Rightarrow> pval \<Rightarrow> hnode \<Rightarrow> hnode \<times> jserror option" where
  "removeEventListener ty (PFun f src) (HText s ls e) = (HText s (removeAll (ty, f) ls) e, None)"
| "removeEventListener ty (PFun f src) (HElement t as st ls cs) =
     (HElement t as st (removeAll (ty, f) ls) cs, None)"
| "removeEventListener ty v h =
     (h, if v = PNull \<or> v = PUndefined \<or> is_object v then None else Some type_error)"

fun setAttribute :: "string \<Rightarrow> pval \<Rightarrow> hnode \<Rightarrow> hnode \<times> jserror option" where
  "setAttribute k v (HElement t as st ls cs) =
     (HElement t (AList.update k (js_String v) as) st ls cs, None)"
| "setAttribute k v (HText s ls e) = (HText s ls e, Some type_error)"

fun removeAttribute :: "string \<Rightarrow> hnode \<Rightarrow> hnode \<times> jserror option" where
  "removeAttribute k (HElement t as st ls cs) = (HElement t (AList.delete k as) st ls cs, None)"
| "removeAttribute k (HText s ls e) = (HText s ls e, Some type_error)"

text \<open>\<open>element.className = v\<close>; on a text node this only adds a property to the object.\<close>

fun set_className :: "pval \<Rightarrow> hnode \<Rightarrow> hnode \<times> jserror option" where
  "set_className v (HElement t as st ls cs) =
     (HElement t (AList.update ''class'' (js_String v) as) st ls cs, None)"
| "set_className v (HText s ls e) = (HText s ls e, None)"

text \<open>\<open>Object.assign(element.style, v)\<close>; a text node has no \<open>style\<close> unless one was assigned.\<close>

fun assign_style :: "pval \<Rightarrow> hnode \<Rightarrow> hnode \<times> jserror option" where
  "assign_style (PObj i kvs) (HElement t as st ls cs) =
     (HElement t as (foldl (\<lambda>acc kv. AList.update (fst kv) (snd kv) acc) st kvs) ls cs, None)"
| "assign_style v (HElement t as st ls cs) = (HElement t as st ls cs, None)"
| "assign_style v (HText s ls e) = (HText s ls e, if e then None else Some type_error)"

text \<open>\<open>element.style = {}\<close>: on an element the declarations are cleared.\<close>

fun reset_style :: "hnode \<Rightarrow> hnode \<times> jserror option" where
  "reset_style (HElement t as st ls cs) = (HElement t as [] ls cs, None)"
| "reset_style (HText s ls e) = (HText s ls True, None)"

text \<open>On the parent, which may be \<open>null\<close>.\<close>

fun appendChild :: "hnode option \<Rightarrow> hnode \<Rightarrow> hnode option \<times> jserror option" where
  "appendChild None c = (None, Some type_error)"
| "appendChild (Some (HText s ls e)) c = (Some (HText s ls e), Some hierarchy_error)"
| "appendChild (Some (HElement t as st ls cs)) c = (Some (HElement t as st ls (cs @ [c])), None)"

fun firstChild :: "hnode \<Rightarrow> hnode option" where
  "firstChild (HElement t as st ls (c # cs)) = Some c"
| "firstChild h = None"

text \<open>\<open>if (parent.firstChild) parent.removeChild(parent.firstChild)\<close>.\<close>

fun removeFirstChild :: "hnode option \<Rightarrow> hnode option \<times> jserror option" where
  "removeFirstChild None = (None, Some type_error)"
| "removeFirstChild (Some (HElement t as st ls (c # cs))) = (Some (HElement t as st ls cs), None)"
| "removeFirstChild (Some h) = (Some h, None)"

text \<open>\<open>parent.replaceChild(newDOM, parent.firstChild)\<close>.\<close>

fun replaceFirstChild :: "hnode option \<Rightarrow> hnode \<Rightarrow> hnode option \<times> jserror option" where
  "replaceFirstChild None n = (None, Some type_error)"
| "replaceFirstChild (Some (HElement t as st ls (c # cs))) n =
     (Some (HElement t as st ls (n # cs)), None)"
| "replaceFirstChild (Some h) n = (Some h, Some type_error)"

text \<open>The first child after it was changed in place.\<close>

fun with_firstChild :: "hnode \<Rightarrow> hnode option \<Rightarrow> hnode" where
  "with_firstChild (HElement t as st ls (c # cs)) (Some c') = HElement t as st ls (c' # cs)"
| "with_firstChild h c' = h"

subsection \<open>createDOM\<close>

definition eventType :: "string \<Rightarrow> string" where
  "eventType k = drop 2 (toLowerCase k)"

definition starts_with_on :: "string \<Rightarrow> bool" where
  "starts_with_on k = (take 2 k = ''on'')"

text \<open>The body of the \<open>forEach\<close> over \<open>Object.keys(vnode.props)\<close>.\<close>

definition createDOM_prop :: "hnode \<Rightarrow> string \<times> pval \<Rightarrow> hnode" where
  "createDOM_prop el kv =
     (let k = fst kv; v = snd kv in
      if starts_with_on k \<and> is_function v then fst (addEventListener (eventType k) v el)
      else if k = ''className'' then fst (set_className v el)
      else if k = ''style'' \<and> is_object v then fst (assign_style v el)
      else if k \<noteq> ''key'' \<and> k \<noteq> ''children'' then fst (setAttribute k v el)
      else el)"

fun set_children :: "hnode \<Rightarrow> hnode list \<Rightarrow> hnode" where
  "set_children (HElement t as st ls cs) cs' = HElement t as st ls cs'"
| "set_children h cs' = h"

fun createDOM :: "vnode \<Rightarrow> hnode" where
  "createDOM (VText s) = createTextNode s"
| "createDOM (VNumber n) = createTextNode (string_of_int n)"
| "createDOM (VComponent f r ps cs) = createDOM r"
| "createDOM (VElement t ps cs) =
     set_children (foldl createDOM_prop (createElement_host t) ps) (map createDOM cs)"

subsection \<open>updateProperties\<close>

text \<open>The body of the \<open>forEach\<close> over the keys of \<open>{...oldProps, ...newProps}\<close>.\<close>

definition updateProperty :: "props \<Rightarrow> props \<Rightarrow> string \<Rightarrow> hnode \<Rightarrow> hnode \<times> jserror option" where
  "updateProperty oldProps newProps k el =
     (let oldValue = get_prop oldProps k; newValue = get_prop newProps k in
      if newValue = PUndefined \<or> newValue = PNull then
        (if starts_with_on k then removeEventListener (eventType k) oldValue el
         else if k = ''className'' then set_className (PStr []) el
         else if k = ''style'' then reset_style el
         else removeAttribute k el)
      else if oldValue \<noteq> newValue then
        (if starts_with_on k \<and> is_function newValue then
           (case (if \<not> pfalsy oldValue then removeEventListener (eventType k) oldValue el
                  else (el, None)) of
              (el', Some err) \<Rightarrow> (el', Some err)
            | (el', None) \<Rightarrow> addEventListener (eventType k) newValue el')
         else if k = ''className'' then set_className newValue el
         else if k = ''style'' \<and> is_object newValue then assign_style newValue el
         else if k \<noteq> ''key'' then setAttribute k newValue el
         else (el, None))
      else (el, None))"

fun updateProperty_each ::
  "props \<Rightarrow> props \<Rightarrow> string list \<Rightarrow> hnode \<Rightarrow> hnode \<times> jserror option" where
  "updateProperty_each oldProps newProps [] el = (el, None)"
| "updateProperty_each oldProps newProps (k # ks) el =
     (case updateProperty oldProps newProps k el of
        (el', Some err) \<Rightarrow> (el', Some err)
      | (el', None) \<Rightarrow> updateProperty_each oldProps newProps ks el')"

definition updateProperties ::
  "hnode option \<Rightarrow> props \<Rightarrow> props \<Rightarrow> hnode option \<times> jserror option" where
  "updateProperties element oldProps newProps =
     (case element of
        None \<Rightarrow> (None, None)
      | Some el \<Rightarrow>
          (case updateProperty_each oldProps newProps
                  (map fst (object_literal (oldProps @ newProps))) el of
             (el', err) \<Rightarrow> (Some el', err)))"

subsection \<open>patch\<close>

fun is_structured :: "vnode \<Rightarrow> bool" where
  "is_structured (VElement t ps cs) = True"
| "is_structured (VComponent f r ps cs) = True"
| "is_structured v = False"

fun isVNodeChanged :: "vnode \<Rightarrow> vnode \<Rightarrow> bool" where
  "isVNodeChanged (VText a) (VText b) = (a \<noteq> b)"
| "isVNodeChanged (VNumber a) (VNumber b) = (a \<noteq> b)"
| "isVNodeChanged (VElement t ps cs) (VElement t' ps' cs') =
     (t \<noteq> t' \<or> get_prop ps ''key'' \<noteq> get_prop ps' ''key'')"
| "isVNodeChanged (VComponent f r ps cs) (VComponent f' r' ps' cs') =
     (f \<noteq> f' \<or> get_prop ps ''key'' \<noteq> get_prop ps' ''key'')"
| "isVNodeChanged (VElement t ps cs) (VComponent f' r' ps' cs') = True"
| "isVNodeChanged (VComponent f r ps cs) (VElement t' ps' cs') = True"
| "isVNodeChanged a b = True"

text \<open>\<open>typeof newVNode === 'object' && newVNode.tag\<close>.\<close>

fun has_tag :: "vnode \<Rightarrow> bool" where
  "has_tag (VElement t ps cs) = (t \<noteq> [])"
| "has_tag (VComponent f r ps cs) = True"
| "has_tag v = False"

lemma size_vnode_children: "size_list size (vnode_children v) \<le> size v"
  by (cases v) simp_all

text \<open>
  \<open>patch(parent, oldVNode, newVNode)\<close> returns the parent after the call and the fault thrown,
  if any.  \<open>patch_children\<close> is the \<open>for\<close> loop over the child indices; its first argument is
  \<open>parent.firstChild\<close> of the enclosing call, the node that every iteration passes on as the
  parent of the pair it patches.
\<close>

function
  patch :: "hnode option \<Rightarrow> vnode option \<Rightarrow> vnode option \<Rightarrow> hnode option \<times> jserror option"
and
  patch_children :: "hnode option \<Rightarrow> vnode list \<Rightarrow> vnode list \<Rightarrow> hnode option \<times> jserror option"
where
  "patch parent None None = (parent, None)"
| "patch parent None (Some n) =
     (if absent (Some n) then (parent, None) else appendChild parent (createDOM n))"
| "patch parent (Some ov) None =
     (if absent (Some ov) then (parent, None) else removeFirstChild parent)"
| "patch parent (Some ov) (Some n) =
     (if absent (Some ov) \<and> absent (Some n) then (parent, None)
      else if absent (Some ov) then appendChild parent (createDOM n)
      else if absent (Some n) then removeFirstChild parent
      else if isVNodeChanged ov n then replaceFirstChild parent (createDOM n)
      else if has_tag n then
        (case parent of
           None \<Rightarrow> (None, Some type_error)
         | Some p \<Rightarrow>
             (case updateProperties (firstChild p) (vnode_props ov) (vnode_props n) of
                (el, Some err) \<Rightarrow> (Some (with_firstChild p el), Some err)
              | (el, None) \<Rightarrow>
                  (case patch_children el (vnode_children ov) (vnode_children n) of
                     (el', err) \<Rightarrow> (Some (with_firstChild p el'), err))))
      else (parent, None))"
| "patch_children el [] [] = (el, None)"
| "patch_children el (ov # os) [] =
     (case patch el (Some ov) None of
        (el', Some err) \<Rightarrow> (el', Some err)
      | (el', None) \<Rightarrow> patch_children el' os [])"
| "patch_children el [] (n # ns) =
     (case patch el None (Some n) of
        (el', Some err) \<Rightarrow> (el', Some err)
      | (el', None) \<Rightarrow> patch_children el' [] ns)"
| "patch_children el (ov # os) (n # ns) =
     (case patch el (Some ov) (Some n) of
        (el', Some err) \<Rightarrow> (el', Some err)
      | (el', None) \<Rightarrow> patch_children el' os ns)"
  by pat_completeness auto
termination patch
proof (relation "inv_image (less_than <*lex*> less_than)
     (\<lambda>x. case x of
         Inl (parent, ov, n) \<Rightarrow>
           ((case ov of None \<Rightarrow> 0 | Some v \<Rightarrow> Suc (size v))
            + (case n of None \<Rightarrow> 0 | Some v \<Rightarrow> Suc (size v)), 0::nat)
       | Inr (el, os, ns) \<Rightarrow> (size_list size os + size_list size ns, 1))", goal_cases)
  case 1
  show ?case by (intro wf_inv_image wf_lex_prod wf_less_than)
next
  case (2 parent ov n)
  from size_vnode_children[of ov] size_vnode_children[of n] show ?case by simp
qed auto


declare patch.simps [simp del]

subsection \<open>render\<close>

text \<open>
  The mount state \<open>this.vdom\<close>; \<open>rootElement\<close> holds the container as the last successful
  \<open>render\<close> left it.  \<open>vdom_pluginSystem\<close> says whether \<open>this.pluginSystem\<close> is set, and
  \<open>render_hooks\<close> counts the \<open>render:complete\<close> emissions.
\<close>

record vdom =
  currentTree :: "vnode option"
  rootElement :: "hnode option"
  vdom_pluginSystem :: bool
  render_hooks :: nat

definition new_vdom :: vdom where
  "new_vdom = \<lparr>currentTree = None, rootElement = None, vdom_pluginSystem = True,
                render_hooks = 0\<rparr>"

text \<open>
  \<open>render(vnode, container)\<close> returns the container after the call, the mount state and the
  fault thrown, if any.  A fault leaves \<open>this.vdom\<close> as it was.
\<close>

definition render ::
  "vnode \<Rightarrow> hnode option \<Rightarrow> vdom \<Rightarrow> hnode option \<times> vdom \<times> jserror option" where
  "render vnode container s =
     (case container of
        None \<Rightarrow> (None, s, None)
      | Some c \<Rightarrow>
          (case (if \<not> absent (currentTree s) then patch (Some c) (currentTree s) (Some vnode)
                 else appendChild (Some (set_children c [])) (createDOM vnode)) of
             (c', Some err) \<Rightarrow> (c', s, Some err)
           | (c', None) \<Rightarrow>
               (c', s\<lparr>currentTree := Some vnode, rootElement := c',
                      render_hooks := (if vdom_pluginSystem s then Suc (render_hooks s)
                                       else render_hooks s)\<rparr>, None)))"

subsection \<open>Trees with defined properties\<close>

text \<open>A tree none of whose properties holds \<open>null\<close> or \<open>undefined\<close>.\<close>

fun defined_props :: "vnode \<Rightarrow> bool" where
  "defined_props (VText s) = True"
| "defined_props (VNumber n) = True"
| "defined_props (VElement t ps cs) =
     (list_all (\<lambda>kv. snd kv \<noteq> PNull \<and> snd kv \<noteq> PUndefined) ps \<and> list_all defined_props cs)"
| "defined_props (VComponent f r ps cs) =
     (list_all (\<lambda>kv. snd kv \<noteq> PNull \<and> snd kv \<noteq> PUndefined) ps \<and> list_all defined_props cs)"


subsection \<open>Example trees\<close>

definition mount_target :: hnode where
  "mount_target = HElement ''div'' [(''id'', ''app'')] [] [] []"

definition mounted :: "hnode list \<Rightarrow> hnode" where
  "mounted cs = HElement ''div'' [(''id'', ''app'')] [] [] cs"

definition ul :: "string list \<Rightarrow> vnode" where
  "ul items = VElement ''ul'' [] (map VText items)"

definition host_ul :: "string list \<Rightarrow> hnode" where
  "host_ul items = HElement ''ul'' [] [] [] (map createTextNode items)"

text \<open>A second \<open>render\<close> into the container and the mount state that an earlier one left.\<close>

definition render_again ::
  "vnode \<Rightarrow> hnode option \<times> vdom \<times> jserror option \<Rightarrow> hnode option \<times> vdom \<times> jserror option" where
  "render_again v r = render v (fst r) (fst (snd r))"

definition titled_div :: vnode where
  "titled_div = VElement ''div'' [(''title'', PNull)] []"


section \<open>Properties of the plugin system\<close>

subsection \<open>The load order is a topological order\<close>

lemma topo_closed:
  "topo_rev deps l \<Longrightarrow> m \<in> set l \<Longrightarrow> set (deps_of deps m) \<subseteq> set l"
  by (induction l) auto

lemma topo_reach:
  assumes "topo_rev deps l" "(m, d) \<in> (dep_edges deps)\<^sup>*" "m \<in> set l"
  shows "d \<in> set l"
  using assms(2,3)
proof (induction rule: rtrancl_induct)
  case base then show ?case by simp
next
  case (step y z)
  then have "y \<in> set l" by simp
  with topo_closed[OF assms(1)] step(2) show ?case by (auto simp: dep_edges_def)
qed

lemma topo_acyclic:
  "topo_rev deps l \<Longrightarrow> m \<in> set l \<Longrightarrow> (m, m) \<notin> (dep_edges deps)\<^sup>+"
proof (induction l)
  case Nil then show ?case by simp
next
  case (Cons n earlier)
  show ?case
  proof
    assume cyc: "(m, m) \<in> (dep_edges deps)\<^sup>+"
    have t: "topo_rev deps earlier" and sub: "set (deps_of deps n) \<subseteq> set earlier"
      using Cons.prems(1) by auto
    show False
    proof (cases "m \<in> set earlier")
      case True
      with Cons.IH t cyc show False by blast
    next
      case False
      with Cons.prems(2) have mn: "m = n" by simp
      from cyc obtain d where e: "(m, d) \<in> dep_edges deps" and r: "(d, m) \<in> (dep_edges deps)\<^sup>*"
        by (meson tranclD)
      from e mn sub have "d \<in> set earlier" by (auto simp: dep_edges_def)
      with topo_reach[OF t r] have "m \<in> set earlier" by simp
      with False show False by simp
    qed
  qed
qed

lemma visit_inv:
  "(load_inv deps st \<longrightarrow> visit deps temp name st = Inr st' \<longrightarrow>
      load_inv deps st' \<and> name \<in> fst st' \<and> fst st \<subseteq> fst st')"
  and visit_all_inv:
  "(load_inv deps st \<longrightarrow> visit_all deps temp ds st = Inr st'' \<longrightarrow>
      load_inv deps st'' \<and> set ds \<subseteq> fst st'' \<and> fst st \<subseteq> fst st'')"
proof (induction deps temp name st and deps temp ds st arbitrary: st' and st'' rule: visit_visit_all.induct)
  case (1 deps temp name st)
  show ?case
  proof (intro impI)
    assume inv: "load_inv deps st" and r: "visit deps temp name st = Inr st'"
    show "load_inv deps st' \<and> name \<in> fst st' \<and> fst st \<subseteq> fst st'"
    proof (cases "name \<in> temp")
      case True with r show ?thesis by (simp add: visit.simps)
    next
      case nt: False
      show ?thesis
      proof (cases "name \<in> fst st")
        case True with nt r inv show ?thesis by (auto simp: visit.simps)
      next
        case False
        with nt r obtain st1 where
          v: "visit_all deps (insert name temp) (deps_of deps name) st = Inr st1"
          and st': "st' = (insert name (fst st1), snd st1 @ [name])"
          by (auto simp: visit.simps split: sum.splits)
        from 1[OF nt False, of st1] inv v
        have i1: "load_inv deps st1" and d: "set (deps_of deps name) \<subseteq> fst st1"
          and m: "fst st \<subseteq> fst st1" by auto
        then show ?thesis using st' by (auto simp: load_inv_def)
      qed
    qed
  qed
next
  case (2 deps temp st)
  then show ?case by auto
next
  case (3 deps temp dep ds st)
  show ?case
  proof (intro impI)
    assume inv: "load_inv deps st" and r: "visit_all deps temp (dep # ds) st = Inr st''"
    then obtain st1 where v: "visit deps temp dep st = Inr st1"
      and w: "visit_all deps temp ds st1 = Inr st''"
      by (auto split: sum.splits)
    from 3(1)[of st1] inv v have a: "load_inv deps st1" "dep \<in> fst st1" "fst st \<subseteq> fst st1" by auto
    from 3(2)[OF v, of st''] a(1) w
    have b: "load_inv deps st''" "set ds \<subseteq> fst st''" "fst st1 \<subseteq> fst st''" by auto
    with a show "load_inv deps st'' \<and> set (dep # ds) \<subseteq> fst st'' \<and> fst st \<subseteq> fst st''" by auto
  qed
qed


lemma visit_roots_inv:
  "load_inv deps st \<Longrightarrow> visit_roots deps names st = Inr st' \<Longrightarrow>
     load_inv deps st' \<and> set names \<subseteq> fst st' \<and> fst st \<subseteq> fst st'"
proof (induction names arbitrary: st)
  case Nil
  then show ?case by auto
next
  case (Cons name names)
  show ?case
  proof (cases "name \<in> fst st")
    case True
    with Cons.prems have "visit_roots deps names st = Inr st'" by simp
    from Cons.IH[OF Cons.prems(1) this] True show ?thesis by auto
  next
    case False
    with Cons.prems(2) obtain st1 where v: "visit deps {} name st = Inr st1"
      and w: "visit_roots deps names st1 = Inr st'"
      by (auto split: sum.splits)
    from visit_inv[of deps st "{}" name st1] Cons.prems(1) v
    have a: "load_inv deps st1" "name \<in> fst st1" "fst st \<subseteq> fst st1" by auto
    from Cons.IH[OF a(1) w] a show ?thesis by auto
  qed
qed

text \<open>Every fault of the traversal is the circular-dependency fault, and it names a plugin
  that is on the traversal stack or lies on a cycle.\<close>

lemma visit_fault:
  "(visit deps temp name st = Inl err \<longrightarrow>
      (\<exists>n. err = circular n \<and> (name, n) \<in> (dep_edges deps)\<^sup>* \<and>
           (n \<in> temp \<or> (n, n) \<in> (dep_edges deps)\<^sup>+)))"
  and visit_all_fault:
  "(visit_all deps temp ds st = Inl err' \<longrightarrow>
      (\<exists>n d. err' = circular n \<and> d \<in> set ds \<and> (d, n) \<in> (dep_edges deps)\<^sup>* \<and>
           (n \<in> temp \<or> (n, n) \<in> (dep_edges deps)\<^sup>+)))"
proof (induction deps temp name st and deps temp ds st arbitrary: err and err' rule: visit_visit_all.induct)
  case (1 deps temp name st)
  show ?case
  proof (intro impI)
    assume r: "visit deps temp name st = Inl err"
    show "\<exists>n. err = circular n \<and> (name, n) \<in> (dep_edges deps)\<^sup>* \<and>
           (n \<in> temp \<or> (n, n) \<in> (dep_edges deps)\<^sup>+)"
    proof (cases "name \<in> temp")
      case True
      with r show ?thesis by (auto simp: visit.simps)
    next
      case nt: False
      show ?thesis
      proof (cases "name \<in> fst st")
        case True with nt r show ?thesis by (simp add: visit.simps)
      next
        case False
        with nt r have v: "visit_all deps (insert name temp) (deps_of deps name) st = Inl err"
          by (auto simp: visit.simps split: sum.splits)
        with 1[OF nt False, of err] obtain n d where
          e: "err = circular n" and d: "d \<in> set (deps_of deps name)"
          and p: "(d, n) \<in> (dep_edges deps)\<^sup>*"
          and c: "n \<in> insert name temp \<or> (n, n) \<in> (dep_edges deps)\<^sup>+"
          by blast
        from d have e1: "(name, d) \<in> dep_edges deps" by (simp add: dep_edges_def)
        from e1 p have reach: "(name, n) \<in> (dep_edges deps)\<^sup>+" by (rule rtrancl_into_trancl2)
        then have "(name, n) \<in> (dep_edges deps)\<^sup>*" by (rule trancl_into_rtrancl)
        moreover have "n \<in> temp \<or> (n, n) \<in> (dep_edges deps)\<^sup>+"
          using c reach by auto
        ultimately show ?thesis using e by blast
      qed
    qed
  qed
next
  case (2 deps temp st)
  then show ?case by simp
next
  case (3 deps temp dep ds st)
  show ?case
  proof (intro impI)
    assume r: "visit_all deps temp (dep # ds) st = Inl err'"
    show "\<exists>n d. err' = circular n \<and> d \<in> set (dep # ds) \<and> (d, n) \<in> (dep_edges deps)\<^sup>* \<and>
           (n \<in> temp \<or> (n, n) \<in> (dep_edges deps)\<^sup>+)"
    proof (cases "visit deps temp dep st")
      case (Inl e)
      with r have "e = err'" by simp
      with 3(1)[of err'] Inl show ?thesis by auto
    next
      case (Inr st1)
      with r have "visit_all deps temp ds st1 = Inl err'" by simp
      with 3(2)[OF Inr, of err'] show ?thesis by auto
    qed
  qed
qed

lemma visit_roots_fault:
  "visit_roots deps names st = Inl err \<Longrightarrow>
     \<exists>n. err = circular n \<and> (n, n) \<in> (dep_edges deps)\<^sup>+"
proof (induction names arbitrary: st)
  case Nil
  then show ?case by simp
next
  case (Cons name names)
  show ?case
  proof (cases "name \<in> fst st")
    case True
    with Cons show ?thesis by simp
  next
    case False
    show ?thesis
    proof (cases "visit deps {} name st")
      case (Inl e)
      with False Cons.prems have "e = err" by simp
      with visit_fault[of deps "{}" name st err] Inl show ?thesis by auto
    next
      case (Inr st1)
      with False Cons.prems have "visit_roots deps names st1 = Inl err" by simp
      then show ?thesis by (rule Cons.IH)
    qed
  qed
qed

lemma load_inv_start: "load_inv deps ({}, [])"
  by (simp add: load_inv_def)

lemma visit_roots_acyclic:
  assumes ok: "visit_roots deps names ({}, []) = Inr st'" and p: "p \<in> set names"
  shows "(p, p) \<notin> (dep_edges deps)\<^sup>+"
proof -
  from visit_roots_inv[OF load_inv_start ok]
  have i: "load_inv deps st'" and n: "set names \<subseteq> fst st'" by auto
  from i have t: "topo_rev deps (rev (snd st'))" and e: "fst st' = set (snd st')"
    by (auto simp: load_inv_def)
  from p n e have "p \<in> set (rev (snd st'))" by auto
  with topo_acyclic[OF t] show ?thesis by blast
qed

lemma cycle_has_entry:
  assumes "(p, p) \<in> (dep_edges deps)\<^sup>+"
  shows "p \<in> fst ` set deps"
proof -
  from assms obtain d where "(p, d) \<in> dep_edges deps" by (meson tranclD)
  then have "deps_of deps p \<noteq> []" by (auto simp: dep_edges_def)
  then show ?thesis using deps_of_no_entry by blast
qed


subsection \<open>Frame properties and the registry invariant\<close>

lemma registerHooks_fields [simp]:
  "plugins (registerHooks n hks s) = plugins s"
  "dependencies (registerHooks n hks s) = dependencies s"
  "initialized (registerHooks n hks s) = initialized s"
  unfolding registerHooks_def
  by (induction hks arbitrary: s) (simp_all add: registerHook_def Let_def)

lemma registerCommands_fields [simp]:
  "plugins (registerCommands n cmds s) = plugins s"
  "dependencies (registerCommands n cmds s) = dependencies s"
  "hooks (registerCommands n cmds s) = hooks s"
  "initialized (registerCommands n cmds s) = initialized s"
proof -
  have a: "\<And>s. plugins (foldl (\<lambda>acc c. registerCommand n c acc) s cmds) = plugins s
     \<and> dependencies (foldl (\<lambda>acc c. registerCommand n c acc) s cmds) = dependencies s
     \<and> hooks (foldl (\<lambda>acc c. registerCommand n c acc) s cmds) = hooks s
     \<and> initialized (foldl (\<lambda>acc c. registerCommand n c acc) s cmds) = initialized s"
    by (induction cmds) (simp_all add: registerCommand_def emit_def Let_def)
  show "plugins (registerCommands n cmds s) = plugins s"
    "dependencies (registerCommands n cmds s) = dependencies s"
    "hooks (registerCommands n cmds s) = hooks s"
    "initialized (registerCommands n cmds s) = initialized s"
    by (simp_all add: registerCommands_def a split: option.splits)
qed

lemma initializePlugin_fields [simp]:
  "plugins (snd (initializePlugin n s)) = plugins s"
  "dependencies (snd (initializePlugin n s)) = dependencies s"
  "initialized (snd (initializePlugin n s)) = initialized s"
  by (simp_all add: initializePlugin_def emit_def Let_def
       split: option.splits init_behaviour.splits jserror.splits)

lemma registry_wf_new: "registry_wf new_plugin_system"
  by (simp add: registry_wf_def new_plugin_system_def)

lemma registry_wf_register: "registry_wf s \<Longrightarrow> registry_wf (snd (register n p opts s))"
  by (auto simp: registry_wf_def register_def register_body_def Let_def dom_update
           split: option.splits)

lemma keys_delete: "fst ` set (AList.delete k al) = fst ` set al - {k}"
  by (induction al) auto

lemma registry_wf_unregister: "registry_wf s \<Longrightarrow> registry_wf (snd (unregister n s))"
  by (auto simp: registry_wf_def unregister_def Let_def emit_def keys_delete split: option.splits)

lemma map_has_keys: "map_has m k = (k \<in> set (map_keys m))"
  by (simp add: map_has_def map_keys_def map_of_eq_None_iff)

lemma keys_update_new: "k \<notin> set (map_keys m) \<Longrightarrow> map_keys (AList.update k v m) = map_keys m @ [k]"
  unfolding map_keys_def by (induction m) auto

lemma register_shape:
  assumes "n \<notin> set (map_keys (plugins s))" "set ds \<subseteq> set (map_keys (plugins s))"
  shows "map_keys (plugins (snd (register n p (needs ds) s))) = map_keys (plugins s) @ [n]"
    and "dependencies (snd (register n p (needs ds) s)) = AList.update n ds (dependencies s)"
    and "initialized (snd (register n p (needs ds) s)) = initialized s"
proof -
  from assms(2) have f: "filter (\<lambda>dep. \<not> map_has (plugins s) dep) ds = []"
    by (auto simp: map_has_keys filter_empty_conv)
  from assms(1) f show
    "map_keys (plugins (snd (register n p (needs ds) s))) = map_keys (plugins s) @ [n]"
    "dependencies (snd (register n p (needs ds) s)) = AList.update n ds (dependencies s)"
    "initialized (snd (register n p (needs ds) s)) = initialized s"
    by (simp_all add: register_def register_body_def needs_def map_has_keys keys_update_new Let_def)
qed

lemma unregister_shape:
  assumes "n \<in> set (map_keys (plugins s))"
  shows "map_keys (plugins (snd (unregister n s))) = removeAll n (map_keys (plugins s))"
    and "dependencies (snd (unregister n s)) = AList.delete n (dependencies s)"
    and "initialized (snd (unregister n s)) = initialized s"
proof -
  from assms obtain info where "map_of (plugins s) n = Some info"
    by (auto simp: map_keys_def dest: weak_map_of_SomeI)
  then show "map_keys (plugins (snd (unregister n s))) = removeAll n (map_keys (plugins s))"
    "dependencies (snd (unregister n s)) = AList.delete n (dependencies s)"
    "initialized (snd (unregister n s)) = initialized s"
    by (simp_all add: unregister_def emit_def map_keys_def delete_keys Let_def)
qed

lemma cycle_of_three_shape:
  assumes "plugins s0 = []" "dependencies s0 = []"
  shows "map_keys (plugins (cycle_of_three s0)) = [''b'', ''c'', ''a'']"
    and "dependencies (cycle_of_three s0) = [(''b'', [''a'']), (''c'', [''b'']), (''a'', [''c''])]"
    and "initialized (cycle_of_three s0) = initialized s0"
proof -
  define s1 where "s1 = snd (register ''a'' plain_plugin (needs []) s0)"
  define s2 where "s2 = snd (register ''b'' plain_plugin (needs [''a'']) s1)"
  define s3 where "s3 = snd (register ''c'' plain_plugin (needs [''b'']) s2)"
  define s4 where "s4 = snd (unregister ''a'' s3)"
  define s5 where "s5 = snd (register ''a'' plain_plugin (needs [''c'']) s4)"
  have s5: "cycle_of_three s0 = s5"
    by (simp add: cycle_of_three_def s1_def s2_def s3_def s4_def s5_def)
  have k1: "map_keys (plugins s1) = [''a'']" and d1: "dependencies s1 = [(''a'', [])]"
    and i1: "initialized s1 = initialized s0"
  proof -
    from assms(1) have k0: "map_keys (plugins s0) = []" by (simp add: map_keys_def)
    show "map_keys (plugins s1) = [''a'']" "dependencies s1 = [(''a'', [])]"
      "initialized s1 = initialized s0"
      unfolding s1_def by (simp_all add: register_shape k0 assms(2))
  qed
  have k2: "map_keys (plugins s2) = [''a'', ''b'']"
    and d2: "dependencies s2 = [(''a'', []), (''b'', [''a''])]"
    and i2: "initialized s2 = initialized s0"
    unfolding s2_def by (simp_all add: register_shape k1 d1 i1)
  have k3: "map_keys (plugins s3) = [''a'', ''b'', ''c'']"
    and d3: "dependencies s3 = [(''a'', []), (''b'', [''a'']), (''c'', [''b''])]"
    and i3: "initialized s3 = initialized s0"
    unfolding s3_def by (simp_all add: register_shape k2 d2 i2)
  have k4: "map_keys (plugins s4) = [''b'', ''c'']"
    and d4: "dependencies s4 = [(''b'', [''a'']), (''c'', [''b''])]"
    and i4: "initialized s4 = initialized s0"
    unfolding s4_def by (simp_all add: unregister_shape k3 d3 i3)
  show "map_keys (plugins (cycle_of_three s0)) = [''b'', ''c'', ''a'']"
    "dependencies (cycle_of_three s0) = [(''b'', [''a'']), (''c'', [''b'']), (''a'', [''c''])]"
    "initialized (cycle_of_three s0) = initialized s0"
    unfolding s5 s5_def by (simp_all add: register_shape k4 d4 i4)
qed

lemma cycle_of_three_cycle:
  assumes "dependencies s = [(''b'', [''a'']), (''c'', [''b'']), (''a'', [''c''])]"
  shows "(''a'', ''a'') \<in> (dep_edges (dependencies s))\<^sup>+"
proof -
  have 1: "(''a'', ''c'') \<in> dep_edges (dependencies s)"
    and 2: "(''c'', ''b'') \<in> dep_edges (dependencies s)"
    and 3: "(''b'', ''a'') \<in> dep_edges (dependencies s)"
    by (simp_all add: assms dep_edges_def deps_of_def)
  from 1 have "(''a'', ''c'') \<in> (dep_edges (dependencies s))\<^sup>+" by (rule r_into_trancl)
  from this 2 have "(''a'', ''b'') \<in> (dep_edges (dependencies s))\<^sup>+" by (rule trancl_into_trancl)
  from this 3 show ?thesis by (rule trancl_into_trancl)
qed


subsection \<open>Duplicate registration\<close>


lemma registerHook_adds_entry:
  "\<exists>l. map_of (hooks (registerHook pluginName (hookName, f) s)) hookName = Some l
       \<and> length l = Suc (length (case map_of (hooks s) hookName of None \<Rightarrow> [] | Some l0 \<Rightarrow> l0))"
  by (cases "map_of (hooks s) hookName")
     (simp_all add: registerHook_def map_has_def Let_def update_conv')


text \<open>
  Claim C10.  Registering a name that is already in the registry returns \<open>false\<close> and
  leaves the whole plugin system as it was: the plugin map, the dependency map, the plugin
  states, the load order and every other field.  Registering a hook, in contrast, always
  adds an entry to the hook's list, whatever the list holds already.
\<close>

theorem register_duplicate_rejected:
  "(map_has (plugins s) name \<longrightarrow> register name plugin options s = (False, s))
   \<and> (\<exists>l. map_of (hooks (registerHook pluginName (hookName, f) s)) hookName = Some l
         \<and> length l = Suc (length (case map_of (hooks s) hookName of None \<Rightarrow> [] | Some l0 \<Rightarrow> l0)))"
  using registerHook_adds_entry[of pluginName hookName f s] by (simp add: register_def)


theorem register_duplicate_rejected_witness:
  "map_has (plugins (snd (register ''a'' plain_plugin (needs []) new_plugin_system))) ''a''
   \<and> register ''a'' plain_plugin (needs [])
        (snd (register ''a'' plain_plugin (needs []) new_plugin_system))
       = (False, snd (register ''a'' plain_plugin (needs []) new_plugin_system))
   \<and> map_of (hooks (registerHook ''a'' (''tick'', ticker None (Inr 1))
                 (registerHook ''a'' (''tick'', ticker None (Inr 1)) new_plugin_system))) ''tick''
       = Some [\<lparr>he_plugin = ''a'', he_function = ticker None (Inr 1), he_priority = 50\<rparr>,
               \<lparr>he_plugin = ''a'', he_function = ticker None (Inr 1), he_priority = 50\<rparr>]"
proof -
  have h: "map_has (plugins (snd (register ''a'' plain_plugin (needs []) new_plugin_system))) ''a''"
    by (simp add: register_def register_body_def new_plugin_system_def map_has_def needs_def Let_def)
  from register_duplicate_rejected[of "snd (register ''a'' plain_plugin (needs []) new_plugin_system)"
         "''a''" plain_plugin "needs []"] h
  have r: "register ''a'' plain_plugin (needs [])
        (snd (register ''a'' plain_plugin (needs []) new_plugin_system))
       = (False, snd (register ''a'' plain_plugin (needs []) new_plugin_system))"
    by blast
  have d: "map_of (hooks (registerHook ''a'' (''tick'', ticker None (Inr 1))
                 (registerHook ''a'' (''tick'', ticker None (Inr 1)) new_plugin_system))) ''tick''
       = Some [\<lparr>he_plugin = ''a'', he_function = ticker None (Inr 1), he_priority = 50\<rparr>,
               \<lparr>he_plugin = ''a'', he_function = ticker None (Inr 1), he_priority = 50\<rparr>]"
    by (simp add: registerHook_def new_plugin_system_def map_has_def Let_def ticker_def
          priority_or_default_def)
  from h r d show ?thesis by simp
qed

subsection \<open>Dependency cycles\<close>

text \<open>
  Claim C7, as amended.  In a registry that has not been initialised yet and whose
  dependency mapping contains a cycle, \<open>initializeAll\<close> throws the circular-dependency
  fault; the fault names a plugin that lies on a cycle, and the registry is left exactly
  as it was, so no plugin is initialised.  (The registry is well formed: only registered
  plugins have an entry in the dependency mapping, see \<open>registry_wf_register\<close> and
  \<open>registry_wf_unregister\<close>.)
\<close>

theorem initializeAll_cycle_fault:
  assumes wf: "registry_wf s" and ni: "\<not> initialized s"
    and cyc: "(p, p) \<in> (dep_edges (dependencies s))\<^sup>+"
  shows "\<exists>n. initializeAll s = (Some (circular n), s) \<and> (n, n) \<in> (dep_edges (dependencies s))\<^sup>+"
proof -
  from cycle_has_entry[OF cyc] wf have reg: "p \<in> set (map_keys (plugins s))"
    by (auto simp: registry_wf_def map_keys_def)
  show ?thesis
  proof (cases "visit_roots (dependencies s) (map_keys (plugins s)) ({}, [])")
    case (Inl err)
    from visit_roots_fault[OF Inl] obtain n where
      "err = circular n" "(n, n) \<in> (dep_edges (dependencies s))\<^sup>+" by blast
    with Inl ni show ?thesis by (auto simp: initializeAll_def determineLoadOrder_def)
  next
    case (Inr st')
    from visit_roots_acyclic[OF Inr reg] cyc show ?thesis by simp
  qed
qed


theorem initializeAll_cycle_fault_witness:
  "registry_wf (cycle_of_three new_plugin_system)
   \<and> \<not> initialized (cycle_of_three new_plugin_system)
   \<and> (''a'', ''a'') \<in> (dep_edges (dependencies (cycle_of_three new_plugin_system)))\<^sup>+
   \<and> initializeAll (cycle_of_three new_plugin_system)
       = (Some (circular ''b''), cycle_of_three new_plugin_system)"
proof -
  let ?s = "cycle_of_three new_plugin_system"
  have e: "plugins (new_plugin_system :: (unit, unit) plugin_system) = []"
    "dependencies (new_plugin_system :: (unit, unit) plugin_system) = []"
    "\<not> initialized (new_plugin_system :: (unit, unit) plugin_system)"
    by (simp_all add: new_plugin_system_def)
  note sh = cycle_of_three_shape[OF e(1,2)]
  have wf: "registry_wf ?s"
    unfolding cycle_of_three_def Let_def
    by (intro registry_wf_register registry_wf_unregister registry_wf_new)
  have ni: "\<not> initialized ?s" using sh(3) e(3) by simp
  have cyc: "(''a'', ''a'') \<in> (dep_edges (dependencies ?s))\<^sup>+"
    by (rule cycle_of_three_cycle[OF sh(2)])
  from initializeAll_cycle_fault[OF wf ni cyc] obtain n where
    n: "initializeAll ?s = (Some (circular n), ?s)" by blast
  have "visit_roots (dependencies ?s) (map_keys (plugins ?s)) ({}, []) = Inl (circular ''b'')"
    unfolding sh by (simp add: visit.simps deps_of_def)
  with ni have "fst (initializeAll ?s) = Some (circular ''b'')"
    by (simp add: initializeAll_def determineLoadOrder_def)
  with n have "initializeAll ?s = (Some (circular ''b''), ?s)" by simp
  with wf ni cyc show ?thesis by simp
qed


lemma register_autoinit_status:
  assumes "initialized s" "n \<notin> set (map_keys (plugins s))" "set ds \<subseteq> set (map_keys (plugins s))"
  shows "map_of (pluginStates (snd (register n plain_plugin (needs ds) s))) n
           = Some \<lparr>ps_status = Initialized, ps_error = None\<rparr>"
proof -
  from assms(3) have f: "filter (\<lambda>dep. \<not> map_has (plugins s) dep) ds = []"
    by (auto simp: map_has_keys filter_empty_conv)
  from assms(1,2) f show ?thesis
    by (simp add: register_def register_body_def needs_def map_has_keys Let_def
          initializePlugin_def plain_plugin_def emit_def update_conv' old_state_error_def)
qed


text \<open>
  The same cycle in a registry that was initialised before the plugins were registered:
  \<open>initializeAll\<close> returns at its guard, and the plugins of the cycle were initialised when
  they were registered.
\<close>

theorem initializeAll_cycle_counterexample:
  "(''a'', ''a'') \<in> (dep_edges (dependencies
        (cycle_of_three (snd (initializeAll new_plugin_system)))))\<^sup>+
   \<and> initializeAll (cycle_of_three (snd (initializeAll new_plugin_system)))
       = (None, cycle_of_three (snd (initializeAll new_plugin_system)))
   \<and> map_of (pluginStates (cycle_of_three (snd (initializeAll new_plugin_system)))) ''a''
       = Some \<lparr>ps_status = Initialized, ps_error = None\<rparr>"
proof -
  let ?init = "snd (initializeAll new_plugin_system) :: (unit, unit) plugin_system"
  let ?s = "cycle_of_three ?init"
  have i0: "initialized ?init" and d0: "dependencies ?init = []" and p0: "plugins ?init = []"
    by (simp_all add: initializeAll_def determineLoadOrder_def new_plugin_system_def
          map_keys_def emit_def)
  note sh = cycle_of_three_shape[OF p0 d0]
  from sh(3) i0 have r: "initializeAll ?s = (None, ?s)" by (simp add: initializeAll_def)
  define s1 where "s1 = snd (register ''a'' plain_plugin (needs []) ?init)"
  define s2 where "s2 = snd (register ''b'' plain_plugin (needs [''a'']) s1)"
  define s3 where "s3 = snd (register ''c'' plain_plugin (needs [''b'']) s2)"
  define s4 where "s4 = snd (unregister ''a'' s3)"
  have e: "?s = snd (register ''a'' plain_plugin (needs [''c'']) s4)"
    by (simp add: cycle_of_three_def s1_def s2_def s3_def s4_def)
  have k0: "map_keys (plugins ?init) = []" using p0 by (simp add: map_keys_def)
  have k1: "map_keys (plugins s1) = [''a'']" "initialized s1"
    unfolding s1_def by (simp_all add: register_shape k0 i0)
  have k2: "map_keys (plugins s2) = [''a'', ''b'']" "initialized s2"
    unfolding s2_def by (simp_all add: register_shape k1)
  have k3: "map_keys (plugins s3) = [''a'', ''b'', ''c'']" "initialized s3"
    unfolding s3_def by (simp_all add: register_shape k2)
  have k4: "map_keys (plugins s4) = [''b'', ''c'']" "initialized s4"
    unfolding s4_def by (simp_all add: unregister_shape k3)
  have "map_of (pluginStates ?s) ''a'' = Some \<lparr>ps_status = Initialized, ps_error = None\<rparr>"
    unfolding e by (rule register_autoinit_status) (simp_all add: k4)
  with r cycle_of_three_cycle[OF sh(2)] show ?thesis by simp
qed

subsection \<open>Hook emission\<close>


lemma hooks_sorted_new: "hooks_sorted new_plugin_system"
  by (simp add: hooks_sorted_def new_plugin_system_def)

lemma hooks_sorted_registerHook: "hooks_sorted s \<Longrightarrow> hooks_sorted (registerHook n e s)"
  by (auto simp: hooks_sorted_def registerHook_def Let_def update_conv' split: if_splits)

lemma hooks_sorted_registerHooks: "hooks_sorted s \<Longrightarrow> hooks_sorted (registerHooks n hks s)"
  unfolding registerHooks_def
  by (induction hks arbitrary: s) (simp_all add: hooks_sorted_registerHook)

lemma hooks_sorted_cong: "hooks s' = hooks s \<Longrightarrow> hooks_sorted s' = hooks_sorted s"
  by (simp add: hooks_sorted_def)

lemma initializePlugin_hooks:
  "hooks (snd (initializePlugin n s)) = hooks s
   \<or> (\<exists>hks. hooks (snd (initializePlugin n s)) = hooks (registerHooks n hks s))"
  by (auto simp: initializePlugin_def Let_def emit_def
        split: option.splits init_behaviour.splits jserror.splits)

lemma hooks_sorted_initializePlugin:
  assumes "hooks_sorted s"
  shows "hooks_sorted (snd (initializePlugin n s))"
proof -
  from initializePlugin_hooks[of n s]
  consider "hooks (snd (initializePlugin n s)) = hooks s"
    | hks where "hooks (snd (initializePlugin n s)) = hooks (registerHooks n hks s)"
    by blast
  then show ?thesis
  proof cases
    case 1
    from hooks_sorted_cong[OF 1] assms show ?thesis by simp
  next
    case 2
    from hooks_sorted_cong[OF 2] hooks_sorted_registerHooks[OF assms, of n hks]
    show ?thesis by simp
  qed
qed

lemma hooks_sorted_register: "hooks_sorted s \<Longrightarrow> hooks_sorted (snd (register n p opts s))"
proof -
  assume a: "hooks_sorted s"
  have b: "\<And>s'. hooks s' = hooks s \<Longrightarrow> hooks_sorted (snd (register_body n p opts s'))"
  proof -
    fix s' :: "('a, 'b) plugin_system" assume h: "hooks s' = hooks s"
    let ?s2 = "s'\<lparr>plugins := AList.update n
                      \<lparr>pi_instance = p, pi_options = opts, pi_enabled = True,
                       pi_version = (case opt_version opts of None \<Rightarrow> ''1.0.0''
                                     | Some v \<Rightarrow> if v = [] then ''1.0.0'' else v)\<rparr>
                      (plugins s'),
                  pluginStates := AList.update n
                      \<lparr>ps_status = Registered, ps_error = None\<rparr> (pluginStates s')\<rparr>"
    have "hooks_sorted ?s2" using a h by (simp add: hooks_sorted_def)
    from hooks_sorted_initializePlugin[OF this] this
    show "hooks_sorted (snd (register_body n p opts s'))"
      by (simp add: register_body_def Let_def)
  qed
  show ?thesis
    by (auto simp: register_def a b split: option.splits)
qed

lemma map_of_map_values:
  "map_of (map (\<lambda>(k, v). (k, f v)) al) k = map_option f (map_of al k)"
  by (induction al) auto

lemma hooks_sorted_unregister: "hooks_sorted s \<Longrightarrow> hooks_sorted (snd (unregister n s))"
proof (cases "map_of (plugins s) n")
  case None
  assume "hooks_sorted s"
  with None show ?thesis by (simp add: unregister_def)
next
  case (Some info)
  assume a: "hooks_sorted s"
  have h: "hooks (snd (unregister n s))
           = map (\<lambda>(hookName, hs). (hookName, filter (\<lambda>h. he_plugin h \<noteq> n) hs)) (hooks s)"
    using Some by (simp add: unregister_def Let_def emit_def)
  show ?thesis
    unfolding hooks_sorted_def h map_of_map_values
  proof (intro allI impI)
    fix hookName hs
    assume "map_option (filter (\<lambda>h. he_plugin h \<noteq> n)) (map_of (hooks s) hookName) = Some hs"
    then obtain hs0 where m: "map_of (hooks s) hookName = Some hs0"
      and e: "hs = filter (\<lambda>h. he_plugin h \<noteq> n) hs0" by auto
    from a m have "sorted (map he_priority hs0)" by (simp add: hooks_sorted_def)
    then show "sorted (map he_priority hs)" unfolding e by (rule sorted_filter)
  qed
qed

lemma registerHooks_emitted [simp]: "emitted (registerHooks n hks s) = emitted s"
  unfolding registerHooks_def
  by (induction hks arbitrary: s) (simp_all add: registerHook_def Let_def)



lemma setPluginEnabled_fields:
  "hooks (snd (setPluginEnabled n b s)) = hooks s"
  "isPluginEnabled (snd (setPluginEnabled n b s)) m
     = (if m = n \<and> map_has (plugins s) n then b else isPluginEnabled s m)"
  "map_has (plugins (snd (setPluginEnabled n b s))) m = map_has (plugins s) m"
  by (auto simp: setPluginEnabled_def emit_def isPluginEnabled_def map_has_def update_conv'
        split: option.splits)

lemma hooks_stored_new: "hooks_stored new_plugin_system"
  by (simp add: hooks_stored_def new_plugin_system_def)

lemma hooks_stored_registerHook: "hooks_stored s \<Longrightarrow> hooks_stored (registerHook n e s)"
  by (auto simp: hooks_stored_def registerHook_def Let_def update_conv' map_has_def
        split: if_splits option.splits)

lemma hooks_stored_registerHooks: "hooks_stored s \<Longrightarrow> hooks_stored (registerHooks n hks s)"
  unfolding registerHooks_def
  by (induction hks arbitrary: s) (simp_all add: hooks_stored_registerHook)

lemma hooks_stored_cong: "hooks s' = hooks s \<Longrightarrow> hooks_stored s' = hooks_stored s"
  by (simp add: hooks_stored_def)

lemma hooks_stored_initializePlugin:
  assumes "hooks_stored s"
  shows "hooks_stored (snd (initializePlugin n s))"
proof -
  from initializePlugin_hooks[of n s]
  consider "hooks (snd (initializePlugin n s)) = hooks s"
    | hks where "hooks (snd (initializePlugin n s)) = hooks (registerHooks n hks s)"
    by blast
  then show ?thesis
  proof cases
    case 1
    from hooks_stored_cong[OF 1] assms show ?thesis by simp
  next
    case 2
    from hooks_stored_cong[OF 2] hooks_stored_registerHooks[OF assms, of n hks]
    show ?thesis by simp
  qed
qed

lemma hooks_stored_register: "hooks_stored s \<Longrightarrow> hooks_stored (snd (register n p opts s))"
proof -
  assume a: "hooks_stored s"
  have b: "\<And>s'. hooks s' = hooks s \<Longrightarrow> hooks_stored (snd (register_body n p opts s'))"
  proof -
    fix s' :: "('a, 'b) plugin_system" assume h: "hooks s' = hooks s"
    let ?s2 = "s'\<lparr>plugins := AList.update n
                      \<lparr>pi_instance = p, pi_options = opts, pi_enabled = True,
                       pi_version = (case opt_version opts of None \<Rightarrow> ''1.0.0''
                                     | Some v \<Rightarrow> if v = [] then ''1.0.0'' else v)\<rparr>
                      (plugins s'),
                  pluginStates := AList.update n
                      \<lparr>ps_status = Registered, ps_error = None\<rparr> (pluginStates s')\<rparr>"
    have "hooks_stored ?s2" using a h by (simp add: hooks_stored_def)
    from hooks_stored_initializePlugin[OF this] this
    show "hooks_stored (snd (register_body n p opts s'))"
      by (simp add: register_body_def Let_def)
  qed
  show ?thesis
    by (auto simp: register_def a b split: option.splits)
qed

lemma hooks_stored_unregister: "hooks_stored s \<Longrightarrow> hooks_stored (snd (unregister n s))"
proof (cases "map_of (plugins s) n")
  case None
  assume "hooks_stored s"
  with None show ?thesis by (simp add: unregister_def)
next
  case (Some info)
  assume a: "hooks_stored s"
  have h: "hooks (snd (unregister n s))
           = map (\<lambda>(hookName, hs). (hookName, filter (\<lambda>h. he_plugin h \<noteq> n) hs)) (hooks s)"
    using Some by (simp add: unregister_def Let_def emit_def)
  show ?thesis
    unfolding hooks_stored_def h map_of_map_values
  proof (intro allI impI)
    fix hookName hs e
    assume "map_option (filter (\<lambda>h. he_plugin h \<noteq> n)) (map_of (hooks s) hookName) = Some hs"
      and e: "e \<in> set hs"
    then obtain hs0 where m: "map_of (hooks s) hookName = Some hs0"
      and f: "hs = filter (\<lambda>h. he_plugin h \<noteq> n) hs0" by auto
    from e f have "e \<in> set hs0" by simp
    with a m show "he_priority e = priority_or_default (hf_priority (he_function e))"
      by (auto simp: hooks_stored_def)
  qed
qed

lemma hooks_stored_setPluginEnabled:
  "hooks_stored s \<Longrightarrow> hooks_stored (snd (setPluginEnabled n b s))"
  by (simp add: hooks_stored_def setPluginEnabled_fields)

lemma hooks_sorted_setPluginEnabled:
  "hooks_sorted s \<Longrightarrow> hooks_sorted (snd (setPluginEnabled n b s))"
  by (simp add: hooks_sorted_def setPluginEnabled_fields)

subsection \<open>What an emission runs\<close>





text \<open>The subscribers are called in ascending order of the priority stored with them.\<close>

lemma enabled_subscribers_sorted:
  assumes "hooks_sorted s" and "map_of (hooks s) hookName = Some hs"
  shows "sorted (map he_priority (enabled_subscribers s hs))"
  using assms by (simp add: hooks_sorted_def enabled_subscribers_def sorted_filter)

text \<open>
  The stored priority is the declared one unless that is 0.  So the calls are in ascending
  order of the declared priority when no subscriber of the hook was declared with 0.
\<close>

lemma priority_or_default_declared:
  "priority_or_default p = (case p of None \<Rightarrow> 50 | Some n \<Rightarrow> n) \<longleftrightarrow> p \<noteq> Some 0"
  by (simp add: priority_or_default_def split: option.splits)

lemma enabled_subscribers_declared_order:
  assumes "hooks_sorted s" and "hooks_stored s" and "map_of (hooks s) hookName = Some hs"
    and "\<And>h. h \<in> set hs \<Longrightarrow> hf_priority (he_function h) \<noteq> Some 0"
  shows "sorted (map declared_priority (enabled_subscribers s hs))"
proof -
  have "declared_priority h = he_priority h" if "h \<in> set hs" for h
  proof -
    from assms(2,3) that
    have "he_priority h = priority_or_default (hf_priority (he_function h))"
      by (auto simp: hooks_stored_def)
    with assms(4)[OF that] show ?thesis
      by (simp add: declared_priority_def priority_or_default_def split: option.splits)
  qed
  then have e: "map declared_priority (enabled_subscribers s hs)
                = map he_priority (enabled_subscribers s hs)"
    by (intro map_cong refl) (simp add: enabled_subscribers_def)
  show ?thesis unfolding e by (rule enabled_subscribers_sorted[OF assms(1,3)])
qed





text \<open>A bound that suffices can be raised without changing the result.\<close>

lemma run_hooks_Suc:
  "run_hooks fuel s hookName args hs = Some r \<Longrightarrow> run_hooks (Suc fuel) s hookName args hs = Some r"
proof (induction fuel s hookName args hs arbitrary: r rule: run_hooks.induct)
  case (1 fuel s hookName args)
  then show ?case by simp
next
  case (2 fuel s hookName args h hs)
  show ?case
  proof (cases "isPluginEnabled s (he_plugin h)")
    case False
    with 2(1)[of r] 2(5) show ?thesis by simp
  next
    case True
    show ?thesis
    proof (cases "hf_call (he_function h) args")
      case (Inr v)
      with True 2(5) obtain rs es where t: "run_hooks fuel s hookName args hs = Some (rs, es)"
        by (auto split: option.splits)
      from 2(4)[OF _ Inr t] True have "run_hooks (Suc fuel) s hookName args hs = Some (rs, es)"
        by simp
      with True Inr t 2(5) show ?thesis by simp
    next
      case (Inl err)
      with True 2(5) obtain n where f: "fuel = Suc n" by (cases fuel) auto
      let ?nested = "\<lambda>k. case map_of (hooks s) ''hook:error'' of
                           None \<Rightarrow> Some ([], [])
                         | Some ehs \<Rightarrow>
                             run_hooks k s ''hook:error''
                               (HookErrorInfo hookName (he_plugin h) err) ehs"
      from True Inl f 2(5) obtain x y where n: "?nested n = Some (x, y)"
        by (auto split: option.splits)
      with True Inl f 2(5) obtain rs es where t: "run_hooks fuel s hookName args hs = Some (rs, es)"
        by (auto split: option.splits)
      have n': "?nested (Suc n) = Some (x, y)"
      proof (cases "map_of (hooks s) ''hook:error''")
        case None
        with n show ?thesis by simp
      next
        case (Some ehs)
        with n have "run_hooks n s ''hook:error'' (HookErrorInfo hookName (he_plugin h) err) ehs
                     = Some (x, y)" by simp
        from 2(2)[OF _ Inl f Some this] True Some show ?thesis by simp
      qed
      from 2(3)[OF _ Inl f n refl t] True
      have t': "run_hooks (Suc fuel) s hookName args hs = Some (rs, es)" by simp
      from True Inl f n t 2(5) have r: "r = (\<lparr>hr_plugin = he_plugin h, hr_success = False,
                                   hr_result = None, hr_error = Some err\<rparr> # rs,
                                  (''hook:error'', HookErrorInfo hookName (he_plugin h) err)
                                    # y @ es)"
        by simp
      from True Inl n' t' show ?thesis unfolding r f by simp
    qed
  qed
qed

lemma run_hooks_mono:
  "run_hooks fuel s hookName args hs = Some r
     \<Longrightarrow> run_hooks (fuel + k) s hookName args hs = Some r"
  by (induction k) (simp_all add: run_hooks_Suc)

lemma executeHook_mono:
  "executeHook fuel s hookName args = Some r \<Longrightarrow> executeHook (fuel + k) s hookName args = Some r"
  by (auto simp: executeHook_def run_hooks_mono split: option.splits)

subsection \<open>The example subscribers\<close>









section \<open>Properties of the router\<close>


subsection \<open>The regular expressions of the routes\<close>

lemma first_some_Some:
  "first_some xs = Some x \<Longrightarrow> Some x \<in> set xs"
  by (induction xs rule: first_some.induct) auto

lemma first_some_None: "first_some xs = None \<Longrightarrow> Some x \<notin> set xs"
  by (induction xs rule: first_some.induct) auto

lemma take_run_no_slash:
  assumes "k \<le> length (takeWhile (\<lambda>d. d \<noteq> CHR ''/'') s)"
  shows "CHR ''/'' \<notin> set (take k s)"
proof -
  from assms have "take k s = take k (takeWhile (\<lambda>d. d \<noteq> CHR ''/'') s)"
    by (metis takeWhile_dropWhile_id take_append append_Nil2 diff_is_0_eq take_0)
  then have "set (take k s) \<subseteq> set (takeWhile (\<lambda>d. d \<noteq> CHR ''/'') s)"
    by (metis set_take_subset)
  then show ?thesis by (auto dest: set_takeWhileD)
qed

lemma regex_match_sound:
  "regex_match ts s = Some g \<Longrightarrow> fill ts g = Some s"
proof (induction ts arbitrary: s g)
  case Nil
  then show ?case by (simp split: if_splits)
next
  case (Cons t ts)
  show ?case
  proof (cases t)
    case (Lit c)
    with Cons.prems obtain s' where s: "s = c # s'" and m: "regex_match ts s' = Some g"
      by (auto split: list.splits if_splits)
    from Cons.IH[OF m] s Lit show ?thesis by simp
  next
    case (Grp n)
    let ?m = "length (takeWhile (\<lambda>d. d \<noteq> CHR ''/'') s)"
    from Cons.prems Grp have
      "Some g \<in> set (map (\<lambda>k. map_option (\<lambda>g. (n, take k s) # g) (regex_match ts (drop k s)))
                 (rev [1 ..< Suc ?m]))"
      by (auto dest: first_some_Some)
    then obtain k where k: "1 \<le> k" "k \<le> ?m"
      and e: "Some g = map_option (\<lambda>g. (n, take k s) # g) (regex_match ts (drop k s))"
      by auto
    then obtain g' where m: "regex_match ts (drop k s) = Some g'" and g: "g = (n, take k s) # g'"
      by (cases "regex_match ts (drop k s)") auto
    have "?m \<le> length s" by (rule length_takeWhile_le)
    with k have ne: "take k s \<noteq> []" by (cases s) auto
    from take_run_no_slash[OF k(2)] have ns: "CHR ''/'' \<notin> set (take k s)" .
    from Cons.IH[OF m] ne ns g Grp show ?thesis by simp
  qed
qed

lemma regex_match_complete:
  "fill ts g = Some s \<Longrightarrow> regex_match ts s \<noteq> None"
proof (induction ts g arbitrary: s rule: fill.induct)
  case (1 g)
  then show ?case by (simp split: if_splits)
next
  case (2 c ts g)
  then show ?case by auto
next
  case (3 n ts)
  then show ?case by simp
next
  case (4 n ts m v g)
  let ?m = "length (takeWhile (\<lambda>d. d \<noteq> CHR ''/'') s)"
  from 4(2) obtain s' where c: "m = n" "v \<noteq> []" "CHR ''/'' \<notin> set v"
    and f: "fill ts g = Some s'" and s: "s = v @ s'"
    by (auto split: if_splits)
  from 4(1)[OF _ f] c obtain g' where m: "regex_match ts s' = Some g'" by auto
  have "takeWhile (\<lambda>d. d \<noteq> CHR ''/'') s = v @ takeWhile (\<lambda>d. d \<noteq> CHR ''/'') s'"
    unfolding s using c(3) by (intro takeWhile_append2) auto
  then have le: "length v \<le> ?m" by simp
  from c(2) have ge: "1 \<le> length v" by (cases v) auto
  let ?f = "\<lambda>k. map_option (\<lambda>g. (n, take k s) # g) (regex_match ts (drop k s))"
  have "?f (length v) = Some ((n, v) # g')" using m s by simp
  moreover have "length v \<in> set (rev [1 ..< Suc ?m])" using le ge by auto
  ultimately have "Some ((n, v) # g') \<in> set (map ?f (rev [1 ..< Suc ?m]))"
    by (metis (no_types, lifting) image_eqI set_map)
  then have "first_some (map ?f (rev [1 ..< Suc ?m])) \<noteq> None"
    using first_some_None by fastforce
  then show ?case by simp
qed

lemma fill_names:
  "fill ts g = Some s \<Longrightarrow>
     map fst g = concat (map (\<lambda>t. case t of Grp n \<Rightarrow> [n] | Lit c \<Rightarrow> []) ts)"
  by (induction ts g arbitrary: s rule: fill.induct) (auto split: if_splits)

lemma map_of_distinct_keys:
  "distinct (map fst g) \<Longrightarrow> map (\<lambda>n. (n, map_of g n)) (map fst g) = map (\<lambda>(n, v). (n, Some v)) g"
  by (induction g) (auto simp: rev_image_eqI)

lemma defined_route_params:
  assumes d: "defined_route p r" and m: "regex_match (pattern r) path = Some g"
  shows "fill (tokens p) g = Some path"
    and "map (\<lambda>n. (n, map_of g n)) (route_params r) = map (\<lambda>(n, v). (n, Some v)) g"
proof -
  from d m have m': "regex_match (tokens p) path = Some g" by (simp add: defined_route_def)
  from regex_match_sound[OF m'] show f: "fill (tokens p) g = Some path" .
  from fill_names[OF f] have n: "map fst g = param_names p" by (simp add: param_names_def)
  with d have "distinct (map fst g)" by (simp add: defined_route_def valid_group_names_def)
  from map_of_distinct_keys[OF this] n d
  show "map (\<lambda>n. (n, map_of g n)) (route_params r) = map (\<lambda>(n, v). (n, Some v)) g"
    by (simp add: defined_route_def)
qed

lemma match_entries_first:
  "match_entries rs path = first_pattern_match rs path"
  by (induction rs path rule: match_entries.induct)
     (auto simp: first_pattern_match_def split: option.splits)

text \<open>\<open>defineRoute\<close> keeps the route table made of entries of its own.\<close>

lemma set_update_subset: "set (AList.update k v al) \<subseteq> insert (k, v) (set al)"
  by (induction al) auto

lemma defineRoute_defined:
  assumes "defineRoute path c ms s = Some (Inr s')"
    and "\<And>p r. (p, r) \<in> set (routes s) \<Longrightarrow> defined_route p r"
    and "(p, r) \<in> set (routes s')"
  shows "defined_route p r"
proof -
  from assms(1) have pl: "plain_tokens (tokens path)" "path \<noteq> ''__proto__''"
    and v: "valid_group_names (param_names path)"
    and s': "s' = s\<lparr>routes := AList.update path
                \<lparr>originalPath = path, pattern = tokens path, component = c,
                 route_middlewares = ms, route_params = param_names path\<rparr> (routes s)\<rparr>"
    by (auto simp: defineRoute_def split: if_splits)
  from assms(3) s' set_update_subset
  have "(p, r) = (path, \<lparr>originalPath = path, pattern = tokens path, component = c,
                 route_middlewares = ms, route_params = param_names path\<rparr>)
        \<or> (p, r) \<in> set (routes s)"
    by fastforce
  then show ?thesis
  proof
    assume "(p, r) = (path, \<lparr>originalPath = path, pattern = tokens path, component = c,
                 route_middlewares = ms, route_params = param_names path\<rparr>)"
    with pl v show ?thesis by (auto simp: defined_route_def)
  next
    assume "(p, r) \<in> set (routes s)"
    then show ?thesis by (rule assms(2))
  qed
qed

lemma defined_table_new: "defined_table new_router"
  by (simp add: defined_table_def new_router_def)

lemma defined_table_defineRoute:
  assumes "defineRoute path c ms s = Some (Inr s')" and "defined_table s"
  shows "defined_table s'"
proof -
  from assms(2) have d: "defined_route p r" if "(p, r) \<in> set (routes s)" for p r
    using that by (auto simp: defined_table_def list_all_iff)
  from defineRoute_defined[OF assms(1) d] show ?thesis
    by (auto simp: defined_table_def list_all_iff)
qed


lemma tokens_item_id:
  "tokens ''/item/:id'' =
     [Lit CHR ''/'', Lit CHR ''i'', Lit CHR ''t'', Lit CHR ''e'', Lit CHR ''m'', Lit CHR ''/'', Grp ''id'']"
  by (simp add: tokens.simps is_word_char_def)


text \<open>
  The order in which \<open>Object.entries\<close> lists the table does not show in the result: an entry
  under an array index has a pattern without groups, which matches its own key only, and
  that key is found by the exact lookup.
\<close>

lemma match_entries_skip:
  assumes "\<And>p r. (p, r) \<in> set xs \<Longrightarrow> regex_match (pattern r) path = None"
  shows "match_entries (xs @ ys) path = match_entries ys path"
  using assms
proof (induction xs)
  case Nil
  show ?case by simp
next
  case (Cons x xs)
  obtain p r where x: "x = (p, r)" by (cases x)
  from Cons.prems[of p r] x have n: "regex_match (pattern r) path = None" by simp
  have "match_entries (xs @ ys) path = match_entries ys path"
  proof (rule Cons.IH)
    fix p r assume "(p, r) \<in> set xs"
    with Cons.prems[of p r] show "regex_match (pattern r) path = None" by simp
  qed
  with n x show ?case by simp
qed

lemma match_entries_filter:
  assumes "\<And>p r. (p, r) \<in> set rs \<Longrightarrow> \<not> P (p, r) \<Longrightarrow> regex_match (pattern r) path = None"
  shows "match_entries (filter P rs) path = match_entries rs path"
  using assms
proof (induction rs)
  case Nil
  show ?case by simp
next
  case (Cons x rs)
  obtain p r where x: "x = (p, r)" by (cases x)
  have ih: "match_entries (filter P rs) path = match_entries rs path"
  proof (rule Cons.IH)
    fix p r assume "(p, r) \<in> set rs" "\<not> P (p, r)"
    with Cons.prems[of p r] show "regex_match (pattern r) path = None" by simp
  qed
  show ?case
  proof (cases "P (p, r)")
    case True
    with ih x show ?thesis by (simp split: option.splits)
  next
    case False
    with Cons.prems[of p r] x have "regex_match (pattern r) path = None" by simp
    with False ih x show ?thesis by simp
  qed
qed

lemma regex_match_literal:
  "regex_match (map Lit k) path = (if path = k then Some [] else None)"
  by (induction k arbitrary: path) (auto split: list.splits)

lemma digits_literal:
  assumes "list_all is_digit k"
  shows "tokens k = map Lit k"
  using assms by (induction k) (auto simp: tokens.simps is_digit_def)

lemma array_index_digits: "is_array_index k \<Longrightarrow> list_all is_digit k"
  by (cases k) (simp_all add: is_array_index_def)

lemma match_entries_object_entries:
  assumes d: "\<And>p r. (p, r) \<in> set rs \<Longrightarrow> defined_route p r"
    and n: "map_of rs path = None"
  shows "match_entries (object_entries rs) path = match_entries rs path"
proof -
  have idx: "regex_match (pattern r) path = None"
    if "(p, r) \<in> set rs" "is_array_index p" for p r
  proof -
    from d[OF that(1)] have "pattern r = tokens p" by (simp add: defined_route_def)
    with digits_literal[OF array_index_digits[OF that(2)]]
    have "regex_match (pattern r) path = (if path = p then Some [] else None)"
      by (simp add: regex_match_literal)
    moreover from n that(1) have "path \<noteq> p"
      by (metis fst_conv image_eqI map_of_eq_None_iff)
    ultimately show ?thesis by simp
  qed
  let ?ix = "sort_key (\<lambda>kv. decimal (fst kv)) (filter (\<lambda>kv. is_array_index (fst kv)) rs)"
  have "match_entries (?ix @ filter (\<lambda>kv. \<not> is_array_index (fst kv)) rs) path
        = match_entries (filter (\<lambda>kv. \<not> is_array_index (fst kv)) rs) path"
    by (rule match_entries_skip) (auto intro: idx)
  also have "\<dots> = match_entries rs path"
    by (rule match_entries_filter) (auto intro: idx)
  finally show ?thesis by (simp add: object_entries_def)
qed

text \<open>
  What \<open>findMatchingRoute\<close> returns for a path that is not the name of an inherited property,
  on a table written by \<open>defineRoute\<close> for paths without regular-expression
  metacharacters: the route registered under exactly that path, with no parameters, if
  there is one; otherwise the first route in registration order whose anchored pattern
  matches.  The pattern of such a route matches exactly the paths obtained from the
  registered path by putting a non-empty text without \<open>/\<close> in place of each \<open>:name\<close>, and the
  parameters returned are these texts under their names.
\<close>

lemma findMatchingRoute_registered:
  assumes "defined_table s" and "path \<notin> set object_prototype_names"
  shows "findMatchingRoute s path =
           (case map_of (routes s) path of
              Some r \<Rightarrow> (Some (RouteRecord r), [])
            | None \<Rightarrow> first_pattern_match (routes s) path)"
proof -
  from assms(1) have d: "defined_route p r" if "(p, r) \<in> set (routes s)" for p r
    using that by (auto simp: defined_table_def list_all_iff)
  from assms(2) match_entries_object_entries[of "routes s" path, OF d] show ?thesis
    by (simp add: findMatchingRoute_def routes_get_def match_entries_first split: option.splits)
qed

lemma defined_route_matches:
  assumes "defined_route p r"
  shows "(regex_match (pattern r) path \<noteq> None) = (\<exists>g. fill (tokens p) g = Some path)"
proof -
  from assms have e: "pattern r = tokens p" by (simp add: defined_route_def)
  show ?thesis unfolding e using regex_match_sound regex_match_complete by blast
qed

text \<open>A name that every object inherits is found where no route is registered under it.\<close>

lemma findMatchingRoute_inherited:
  assumes "path \<in> set object_prototype_names" and "map_of (routes s) path = None"
  shows "findMatchingRoute s path = (Some (Inherited path), [])"
  using assms by (simp add: findMatchingRoute_def routes_get_def)

lemma tokens_item_new:
  "tokens ''/item/new'' =
     [Lit CHR ''/'', Lit CHR ''i'', Lit CHR ''t'', Lit CHR ''e'', Lit CHR ''m'', Lit CHR ''/'',
      Lit CHR ''n'', Lit CHR ''e'', Lit CHR ''w'']"
  by (simp add: tokens.simps)

lemma tokens_root: "tokens ''/'' = [Lit CHR ''/'']"
  by (simp add: tokens.simps)

lemma item_router_routes:
  "routes item_router =
     [(''/'', \<lparr>originalPath = ''/'', pattern = tokens ''/'', component = ''Home'',
              route_middlewares = [], route_params = []\<rparr>),
      (''/item/:id'', \<lparr>originalPath = ''/item/:id'', pattern = tokens ''/item/:id'',
              component = ''Item'', route_middlewares = [], route_params = [''id'']\<rparr>),
      (''/item/new'', \<lparr>originalPath = ''/item/new'', pattern = tokens ''/item/new'',
              component = ''NewItem'', route_middlewares = [], route_params = []\<rparr>)]"
proof -
  have p: "plain_tokens (tokens ''/'')" "plain_tokens (tokens ''/item/:id'')"
    "plain_tokens (tokens ''/item/new'')"
    unfolding tokens_root tokens_item_id tokens_item_new
    by (simp_all add: plain_tokens_def regex_special_def)
  have n: "param_names ''/'' = []" "param_names ''/item/:id'' = [''id'']"
    "param_names ''/item/new'' = []"
    unfolding param_names_def tokens_root tokens_item_id tokens_item_new by simp_all
  show ?thesis
    unfolding item_router_def defineRoutes_def
    by (simp add: defineRoute_def p n valid_group_names_def is_digit_def new_router_def)
qed

lemma item_router_defined: "defined_table item_router"
proof -
  have p: "plain_tokens (tokens ''/'')" "plain_tokens (tokens ''/item/:id'')"
    "plain_tokens (tokens ''/item/new'')"
    unfolding tokens_root tokens_item_id tokens_item_new
    by (simp_all add: plain_tokens_def regex_special_def)
  have n: "param_names ''/'' = []" "param_names ''/item/:id'' = [''id'']"
    "param_names ''/item/new'' = []"
    unfolding param_names_def tokens_root tokens_item_id tokens_item_new by simp_all
  show ?thesis
    unfolding defined_table_def item_router_routes
    by (simp add: defined_route_def p n valid_group_names_def is_digit_def)
qed

text \<open>
  Claim C5, evaluated.  The table holds \<open>/\<close>, \<open>/item/:id\<close> and \<open>/item/new\<close>, registered in this
  order.  The path \<open>/item/new\<close> gives the route registered under it, with no parameters,
  although the pattern of \<open>/item/:id\<close> comes first and matches it too; \<open>/item/42\<close> gives the
  route \<open>/item/:id\<close> with \<open>id = 42\<close>; \<open>/item\<close> gives no route.  The path \<open>constructor\<close> is not
  registered and no pattern matches it, yet it is answered like an exact match: the value
  returned as the route is the property \<open>constructor\<close> that the table inherits, with no
  parameters, and \<open>navigate\<close> goes there.
\<close>

theorem findMatchingRoute_returns_inherited_property:
  "map fst (routes item_router) = [''/'', ''/item/:id'', ''/item/new'']
   \<and> findMatchingRoute item_router ''/item/new''
     = (Some (RouteRecord \<lparr>originalPath = ''/item/new'', pattern = tokens ''/item/new'',
              component = ''NewItem'', route_middlewares = [], route_params = []\<rparr>), [])
   \<and> regex_match (tokens ''/item/:id'') ''/item/new'' = Some [(''id'', ''new'')]
   \<and> findMatchingRoute item_router ''/item/42''
     = (Some (RouteRecord \<lparr>originalPath = ''/item/:id'', pattern = tokens ''/item/:id'',
              component = ''Item'', route_middlewares = [], route_params = [''id'']\<rparr>),
        [(''id'', Some ''42'')])
   \<and> findMatchingRoute item_router ''/item'' = (None, [])
   \<and> map_of (routes item_router) ''constructor'' = None
   \<and> first_pattern_match (routes item_router) ''constructor'' = (None, [])
   \<and> findMatchingRoute item_router ''constructor'' = (Some (Inherited ''constructor''), [])
   \<and> currentRoute (navigate item_router ''constructor'' False False) = Some ''constructor''"
proof -
  note ev = item_router_routes tokens_root tokens_item_id tokens_item_new
  have np: "''/item/new'' \<notin> set object_prototype_names" "''/item/42'' \<notin> set object_prototype_names"
    "''/item'' \<notin> set object_prototype_names"
    by (simp_all add: object_prototype_names_def)
  have 0: "map fst (routes item_router) = [''/'', ''/item/:id'', ''/item/new'']"
    by (simp add: item_router_routes)
  have 1: "findMatchingRoute item_router ''/item/new''
     = (Some (RouteRecord \<lparr>originalPath = ''/item/new'', pattern = tokens ''/item/new'',
              component = ''NewItem'', route_middlewares = [], route_params = []\<rparr>), [])"
    by (simp add: findMatchingRoute_registered[OF item_router_defined np(1)] item_router_routes)
  have 2: "regex_match (tokens ''/item/:id'') ''/item/new'' = Some [(''id'', ''new'')]"
    by (simp add: tokens_item_id)
  have 3: "findMatchingRoute item_router ''/item/42''
     = (Some (RouteRecord \<lparr>originalPath = ''/item/:id'', pattern = tokens ''/item/:id'',
              component = ''Item'', route_middlewares = [], route_params = [''id'']\<rparr>),
        [(''id'', Some ''42'')])"
    by (simp add: findMatchingRoute_registered[OF item_router_defined np(2)] ev
          first_pattern_match_def)
  have 4: "findMatchingRoute item_router ''/item'' = (None, [])"
    by (simp add: findMatchingRoute_registered[OF item_router_defined np(3)] ev
          first_pattern_match_def)
  have 5: "map_of (routes item_router) ''constructor'' = None"
    by (simp add: item_router_routes)
  have 6: "first_pattern_match (routes item_router) ''constructor'' = (None, [])"
    by (simp add: ev first_pattern_match_def)
  have 7: "findMatchingRoute item_router ''constructor'' = (Some (Inherited ''constructor''), [])"
    by (rule findMatchingRoute_inherited) (simp_all add: object_prototype_names_def 5)
  have l: "\<not> navigationLock item_router" "currentRoute item_router = None"
    "routerMiddlewares item_router = []" "routes (item_router\<lparr>navigationLock := True\<rparr>) = routes item_router"
    by (simp_all add: item_router_def defineRoutes_def defineRoute_def new_router_def
          split: option.splits sum.splits)
  have 9: "findMatchingRoute (item_router\<lparr>navigationLock := True\<rparr>) ''constructor''
            = (Some (Inherited ''constructor''), [])"
    by (rule findMatchingRoute_inherited) (simp_all add: object_prototype_names_def 5)
  have 8: "currentRoute (navigate item_router ''constructor'' False False) = Some ''constructor''"
    by (simp add: navigate.simps l 9 commit_navigation_def Let_def)
  from 0 1 2 3 4 5 6 7 8 show ?thesis by simp
qed

subsection \<open>Navigation\<close>


lemma defineRoute_plain:
  assumes "plain_tokens (tokens path)" "param_names path = []" "path \<noteq> ''__proto__''"
  shows "defineRoute path c ms s =
           Some (Inr (s\<lparr>routes := AList.update path
                \<lparr>originalPath = path, pattern = tokens path, component = c,
                 route_middlewares = ms, route_params = []\<rparr> (routes s)\<rparr>))"
  using assms by (simp add: defineRoute_def valid_group_names_def)

lemma literal_path:
  assumes "CHR '':'' \<notin> set path" "list_all (\<lambda>c. \<not> regex_special c) path"
  shows "tokens path = map Lit path"
  using assms by (induction path) (auto simp: tokens.simps)

lemma literal_path_plain:
  assumes "CHR '':'' \<notin> set path" "list_all (\<lambda>c. \<not> regex_special c) path"
  shows "plain_tokens (tokens path)" "param_names path = []"
proof -
  from assms(2) show "plain_tokens (tokens path)"
    unfolding literal_path[OF assms] plain_tokens_def by (induction path) simp_all
  show "param_names path = []"
    unfolding param_names_def literal_path[OF assms] by (induction path) simp_all
qed

lemma literal_examples:
  "plain_tokens (tokens ''/'')" "param_names ''/'' = []"
  "plain_tokens (tokens ''/a'')" "param_names ''/a'' = []"
  "plain_tokens (tokens ''/b'')" "param_names ''/b'' = []"
  "plain_tokens (tokens ''/secret'')" "param_names ''/secret'' = []"
  "plain_tokens (tokens ''/login'')" "param_names ''/login'' = []"
  by (simp_all add: literal_path_plain regex_special_def)

lemma visited_router_eq:
  "visited_router =
     \<lparr>routes = [(''/'', literal_route ''/'' ''Home''), (''/a'', literal_route ''/a'' ''A''),
                (''/b'', literal_route ''/b'' ''B'')],
      history = [''/'', ''/a'', ''/b''], currentRoute = Some ''/b'', previousRoute = None,
      routerMiddlewares = [], params = [], navigationLock = False, location_hash = ''/b'',
      has_pluginSystem = True,
      nav_events = [NavigationComplete None ''/'' [] [''/''],
                    NavigationComplete None ''/a'' [] [''/'', ''/a''],
                    NavigationComplete None ''/b'' [] [''/'', ''/a'', ''/b'']]\<rparr>"
proof -
  define s0 where "s0 = defineRoutes [(''/'', ''Home''), (''/a'', ''A''), (''/b'', ''B'')] new_router"
  have r0: "s0 = new_router\<lparr>routes := [(''/'', literal_route ''/'' ''Home''),
       (''/a'', literal_route ''/a'' ''A''), (''/b'', literal_route ''/b'' ''B'')]\<rparr>"
    by (simp add: s0_def defineRoutes_def defineRoute_plain literal_examples new_router_def
          literal_route_def)
  define s1 where "s1 = navigate s0 ''/'' False False"
  have r1: "s1 = s0\<lparr>history := [''/''], currentRoute := Some ''/'', location_hash := ''/'',
                    nav_events := [NavigationComplete None ''/'' [] [''/'']]\<rparr>"
    unfolding s1_def r0
    by (simp add: navigate.simps findMatchingRoute_def routes_get_def commit_navigation_def new_router_def)
  define s2 where "s2 = navigate s1 ''/a'' False False"
  have r2: "s2 = s0\<lparr>history := [''/'', ''/a''], currentRoute := Some ''/a'', location_hash := ''/a'',
                    nav_events := [NavigationComplete None ''/'' [] [''/''],
                                   NavigationComplete None ''/a'' [] [''/'', ''/a'']]\<rparr>"
    unfolding s2_def r1 r0
    by (simp add: navigate.simps findMatchingRoute_def routes_get_def commit_navigation_def new_router_def)
  have v: "visited_router = navigate s2 ''/b'' False False"
    by (simp add: visited_router_def s2_def s1_def s0_def)
  have "navigate s2 ''/b'' False False
        = s0\<lparr>history := [''/'', ''/a'', ''/b''], currentRoute := Some ''/b'', location_hash := ''/b'',
              nav_events := [NavigationComplete None ''/'' [] [''/''],
                             NavigationComplete None ''/a'' [] [''/'', ''/a''],
                             NavigationComplete None ''/b'' [] [''/'', ''/a'', ''/b'']]\<rparr>"
    unfolding r2 r0
    by (simp add: navigate.simps findMatchingRoute_def routes_get_def commit_navigation_def new_router_def)
  then show ?thesis
    unfolding v r0 by (simp add: new_router_def)
qed


text \<open>
  Claim C3.  With the history \<open>[/, /a, /b]\<close>, \<open>back()\<close> pops twice, which leaves \<open>[/]\<close>, and
  calls \<open>navigate\<close> once, for \<open>/a\<close>.  With at most one entry it pops nothing and calls
  \<open>navigate\<close> for the root \<open>/\<close>.
\<close>

theorem back_pops_twice:
  "(history s = [''/'', ''/a'', ''/b''] \<longrightarrow> back_pop s = (s\<lparr>history := [''/'']\<rparr>, ''/a''))
   \<and> (length (history s) \<le> 1 \<longrightarrow> back_pop s = (s, ''/''))
   \<and> back_router s = navigate (fst (back_pop s)) (snd (back_pop s)) False False"
  by (simp add: back_pop_def back_router_def Let_def split: prod.splits)

theorem back_pops_twice_witness:
  "history visited_router = [''/'', ''/a'', ''/b'']
   \<and> back_pop visited_router = (visited_router\<lparr>history := [''/'']\<rparr>, ''/a'')
   \<and> back_router visited_router = navigate (visited_router\<lparr>history := [''/'']\<rparr>) ''/a'' False False
   \<and> history (back_router visited_router) = [''/'', ''/a'']
   \<and> currentRoute (back_router visited_router) = Some ''/a''
   \<and> length (history new_router) \<le> 1
   \<and> back_pop new_router = (new_router, ''/'')
   \<and> back_router new_router = navigate new_router ''/'' False False"
proof -
  have h: "history visited_router = [''/'', ''/a'', ''/b'']" by (simp add: visited_router_eq)
  have l: "length (history new_router) \<le> 1" by (simp add: new_router_def)
  from back_pops_twice[of visited_router] h
  have 1: "back_pop visited_router = (visited_router\<lparr>history := [''/'']\<rparr>, ''/a'')"
    and 2: "back_router visited_router
            = navigate (fst (back_pop visited_router)) (snd (back_pop visited_router)) False False"
    by blast+
  from back_pops_twice[of new_router] l
  have 3: "back_pop new_router = (new_router, ''/'')"
    and 4: "back_router new_router
            = navigate (fst (back_pop new_router)) (snd (back_pop new_router)) False False"
    by blast+
  have 5: "navigate (visited_router\<lparr>history := [''/'']\<rparr>) ''/a'' False False
           = visited_router\<lparr>history := [''/'', ''/a''], currentRoute := Some ''/a'',
                location_hash := ''/a'',
                nav_events := nav_events visited_router
                  @ [NavigationComplete None ''/a'' [] [''/'', ''/a'']]\<rparr>"
    unfolding visited_router_eq
    by (simp add: navigate.simps findMatchingRoute_def routes_get_def commit_navigation_def)
  from h l 1 2 3 4 5 show ?thesis by simp
qed


text \<open>
  Claim C4.  While the lock is set, a call of \<open>navigate\<close> returns at once and changes
  nothing: history, current route, parameters, lock and every other field stay as they are.
\<close>

theorem navigate_dropped_while_locked:
  "navigationLock s \<Longrightarrow> navigate s path replace force = s"
  by (simp add: navigate.simps)

theorem navigate_dropped_while_locked_witness:
  "navigationLock (setNavigationLock True visited_router)
   \<and> navigate (setNavigationLock True visited_router) ''/a'' False False
       = setNavigationLock True visited_router"
proof -
  have l: "navigationLock (setNavigationLock True visited_router)"
    by (simp add: setNavigationLock_def)
  from navigate_dropped_while_locked[OF l] l show ?thesis by simp
qed

text \<open>While an attempt runs, the lock is set, so the \<open>redirect\<close> of a guard is dropped.\<close>

lemma redirect_dropped:
  "navigationLock s \<Longrightarrow> run_guard s (Redirect url # rest) = run_guard s rest"
  by (simp add: navigate.simps)

lemma guarded_router_eq:
  "guarded_router =
     \<lparr>routes = [(''/'', literal_route ''/'' ''Home''), (''/secret'', literal_route ''/secret'' ''Secret''),
                (''/login'', literal_route ''/login'' ''LoginForm'')],
      history = [''/''], currentRoute = Some ''/'', previousRoute = None,
      routerMiddlewares = [auth_guard], params = [], navigationLock = False, location_hash = ''/'',
      has_pluginSystem = True,
      nav_events = [NavigationComplete None ''/'' [] [''/'']]\<rparr>"
  unfolding guarded_router_def
  by (simp add: defineRoutes_def defineRoute_plain literal_examples new_router_def
        literal_route_def useRouterMiddleware_def navigate.simps findMatchingRoute_def routes_get_def
        commit_navigation_def auth_guard_def)


text \<open>
  Claim C1, evaluated.  The router is at \<open>/\<close>, \<open>/login\<close> is registered, and the guard answers a
  visit of \<open>/secret\<close> with \<open>redirect('/login')\<close> followed by \<open>cancel()\<close>.  The attempt ends without a
  fault being reported, but the router is exactly where it was: at \<open>/\<close>, not at \<open>/login\<close>.
\<close>

theorem redirect_in_navigate_is_lost:
  "currentRoute guarded_router = Some ''/''
   \<and> map_of (routes guarded_router) ''/login'' = Some (literal_route ''/login'' ''LoginForm'')
   \<and> navigate guarded_router ''/secret'' False False = guarded_router
   \<and> currentRoute (navigate guarded_router ''/secret'' False False) \<noteq> Some ''/login''"
  unfolding guarded_router_eq
  by (simp add: navigate.simps findMatchingRoute_def routes_get_def auth_guard_def catch_navigation_def)

section \<open>Properties of the state store\<close>

lemma map_of_foldl_update:
  "distinct (map fst kvs) \<Longrightarrow>
     map_of (foldl (\<lambda>acc kv. AList.update (fst kv) (snd kv) acc) init kvs) k
       = (case map_of kvs k of Some v \<Rightarrow> Some v | None \<Rightarrow> map_of init k)"
proof (induction kvs arbitrary: init)
  case Nil
  then show ?case by simp
next
  case (Cons kv kvs)
  obtain a b where kv: "kv = (a, b)" by (cases kv)
  from Cons.prems kv have "a \<notin> fst ` set kvs" and d: "distinct (map fst kvs)" by auto
  then have n: "map_of kvs a = None" by (simp add: map_of_eq_None_iff)
  have "map_of (foldl (\<lambda>acc kv. AList.update (fst kv) (snd kv) acc) init (kv # kvs)) k
        = (case map_of kvs k of Some v \<Rightarrow> Some v | None \<Rightarrow> map_of (AList.update a b init) k)"
    using Cons.IH[OF d, of "AList.update a b init"] kv by simp
  also have "\<dots> = (case map_of (kv # kvs) k of Some v \<Rightarrow> Some v | None \<Rightarrow> map_of init k)"
    using n kv by (cases "k = a") (simp_all add: update_conv' split: option.splits)
  finally show ?case .
qed

lemma object_literal_lookup:
  assumes "distinct (map fst old)" "distinct (map fst new)"
  shows "map_of (object_literal (old @ new)) k
           = (case map_of new k of Some v \<Rightarrow> Some v | None \<Rightarrow> map_of old k)"
proof -
  have "object_literal (old @ new)
        = foldl (\<lambda>acc kv. AList.update (fst kv) (snd kv) acc) (object_literal old) new"
    by (simp add: object_literal_def)
  then have "map_of (object_literal (old @ new)) k
        = (case map_of new k of Some v \<Rightarrow> Some v | None \<Rightarrow> map_of (object_literal old) k)"
    by (simp add: map_of_foldl_update[OF assms(2)])
  moreover have "map_of (object_literal old) k = map_of old k"
    unfolding object_literal_def using map_of_foldl_update[OF assms(1), of "[]" k]
    by (simp split: option.splits)
  ultimately show ?thesis by (simp split: option.splits)
qed

lemma setState_value:
  "map_of (state (setState key arg s)) key =
     Some (case arg of Producer f \<Rightarrow> f (state_get s key)
           | Partial n \<Rightarrow> JObj (object_literal (own_props (state_get s key) @ own_props n)))"
  by (simp add: setState_def Let_def updateComponent_def update_conv' split: option.splits)

text \<open>
  Claim C9.  The updater called with an object merges it into the old object state: every
  key of the argument gets the argument's value, every other key keeps its old value, so
  \<open>{a: 1}\<close> updated with \<open>{b: 2}\<close> is \<open>{a: 1, b: 2}\<close> and not \<open>{b: 2}\<close>.  Called with a function,
  it stores the function's result on the old value.
\<close>

theorem setState_merges:
  "(map_of (state s) key = Some (JObj old) \<and> distinct (map fst old) \<and> distinct (map fst new) \<longrightarrow>
      (\<exists>merged. map_of (state (setState key (Partial (JObj new)) s)) key = Some (JObj merged)
         \<and> (\<forall>k. map_of merged k
                  = (case map_of new k of Some v \<Rightarrow> Some v | None \<Rightarrow> map_of old k))))
   \<and> state_get (setState key (Partial (JObj [(''b'', JNum 2)]))
         (s\<lparr>state := AList.update key (JObj [(''a'', JNum 1)]) (state s)\<rparr>)) key
       = JObj [(''a'', JNum 1), (''b'', JNum 2)]
   \<and> state_get (setState key (Partial (JObj [(''b'', JNum 2)]))
         (s\<lparr>state := AList.update key (JObj [(''a'', JNum 1)]) (state s)\<rparr>)) key
       \<noteq> JObj [(''b'', JNum 2)]
   \<and> state_get (setState key (Producer f) s) key = f (state_get s key)"
proof (intro conjI impI)
  assume a: "map_of (state s) key = Some (JObj old) \<and> distinct (map fst old) \<and> distinct (map fst new)"
  then have g: "state_get s key = JObj old" by (simp add: state_get_def)
  have "map_of (state (setState key (Partial (JObj new)) s)) key
          = Some (JObj (object_literal (old @ new)))"
    by (simp add: setState_value g own_props_def)
  with object_literal_lookup[of old new] a
  show "\<exists>merged. map_of (state (setState key (Partial (JObj new)) s)) key = Some (JObj merged)
         \<and> (\<forall>k. map_of merged k
                  = (case map_of new k of Some v \<Rightarrow> Some v | None \<Rightarrow> map_of old k))"
    by blast
next
  let ?s = "s\<lparr>state := AList.update key (JObj [(''a'', JNum 1)]) (state s)\<rparr>"
  have g: "state_get ?s key = JObj [(''a'', JNum 1)]" by (simp add: state_get_def update_conv')
  show m: "state_get (setState key (Partial (JObj [(''b'', JNum 2)])) ?s) key
       = JObj [(''a'', JNum 1), (''b'', JNum 2)]"
  proof -
    have "map_of (state (setState key (Partial (JObj [(''b'', JNum 2)])) ?s)) key
            = Some (JObj (object_literal ([(''a'', JNum 1)] @ [(''b'', JNum 2)])))"
      by (simp add: setState_value g own_props_def)
    then show ?thesis by (simp add: state_get_def object_literal_def)
  qed
  then show "state_get (setState key (Partial (JObj [(''b'', JNum 2)])) ?s) key
       \<noteq> JObj [(''b'', JNum 2)]"
    by simp
next
  show "state_get (setState key (Producer f) s) key = f (state_get s key)"
    unfolding state_get_def[of "setState key (Producer f) s"] setState_value by simp
qed

theorem setState_merges_witness:
  "map_of (state counter_state) ''Counter_state'' = Some (JObj [(''a'', JNum 1)])
   \<and> distinct (map fst [(''a'', JNum 1)]) \<and> distinct (map fst [(''b'', JNum 2)])
   \<and> map_of (state (setState ''Counter_state'' (Partial (JObj [(''b'', JNum 2)])) counter_state))
        ''Counter_state'' = Some (JObj [(''a'', JNum 1), (''b'', JNum 2)])"
proof -
  have c: "map_of (state counter_state) ''Counter_state'' = Some (JObj [(''a'', JNum 1)])"
    by (simp add: counter_state_def useState_def new_vani_state_def state_get_def falsy_def Let_def)
  have d: "distinct (map fst [(''a'', JNum 1)])" "distinct (map fst [(''b'', JNum 2)])" by simp_all
  from setState_merges[of counter_state "''Counter_state''" "[(''a'', JNum 1)]" "[(''b'', JNum 2)]"] c d
  obtain merged where
    m: "map_of (state (setState ''Counter_state'' (Partial (JObj [(''b'', JNum 2)])) counter_state))
          ''Counter_state'' = Some (JObj merged)"
    by blast
  have "map_of (state (setState ''Counter_state'' (Partial (JObj [(''b'', JNum 2)])) counter_state))
          ''Counter_state'' = Some (JObj [(''a'', JNum 1), (''b'', JNum 2)])"
    unfolding setState_value using c by (simp add: state_get_def own_props_def object_literal_def)
  with c d show ?thesis by simp
qed

section \<open>Properties of the reconciler\<close>

lemma first_render:
  "\<not> absent (Some v) \<Longrightarrow>
   render v (Some mount_target) new_vdom
     = (Some (mounted [createDOM v]),
        \<lparr>currentTree = Some v, rootElement = Some (mounted [createDOM v]),
         vdom_pluginSystem = True, render_hooks = 1\<rparr>, None)"
  by (simp add: render_def new_vdom_def mount_target_def mounted_def)

lemma second_render:
  "\<not> absent (Some v) \<Longrightarrow>
   render_again w (render v (Some mount_target) new_vdom)
     = (case patch (Some (mounted [createDOM v])) (Some v) (Some w) of
          (c, Some err) \<Rightarrow>
            (c, \<lparr>currentTree = Some v, rootElement = Some (mounted [createDOM v]),
                 vdom_pluginSystem = True, render_hooks = 1\<rparr>, Some err)
        | (c, None) \<Rightarrow>
            (c, \<lparr>currentTree = Some w, rootElement = c,
                 vdom_pluginSystem = True, render_hooks = 2\<rparr>, None))"
  by (simp add: render_again_def first_render) (simp add: render_def split: prod.splits option.splits)

lemma createDOM_ul: "createDOM (ul items) = host_ul items"
  by (simp add: ul_def host_ul_def createElement_host_def comp_def)

lemma present_ul: "\<not> absent (Some (ul items))"
  by (simp add: ul_def)

text \<open>
  Claim C2, evaluated.  After \<open>ul\<close> with the texts a and b is mounted, rendering \<open>ul\<close> with a and
  c replaces the first text, not the second: the host list reads c, b.  Rendering \<open>ul\<close> with
  a alone removes the first text: the host list reads b.  For every child index, \<open>patch\<close> is
  handed \<open>parent.firstChild\<close> as the parent and works on that node's first child.
\<close>

theorem patch_children_hit_first_child:
  "fst (render (ul [''a'', ''b'']) (Some mount_target) new_vdom)
     = Some (mounted [host_ul [''a'', ''b'']])
   \<and> fst (render (ul [''a'', ''c'']) (Some mount_target) new_vdom)
     = Some (mounted [host_ul [''a'', ''c'']])
   \<and> render_again (ul [''a'', ''c'']) (render (ul [''a'', ''b'']) (Some mount_target) new_vdom)
     = (Some (mounted [host_ul [''c'', ''b'']]),
        \<lparr>currentTree = Some (ul [''a'', ''c'']),
         rootElement = Some (mounted [host_ul [''c'', ''b'']]),
         vdom_pluginSystem = True, render_hooks = 2\<rparr>, None)
   \<and> fst (render (ul [''a'']) (Some mount_target) new_vdom)
     = Some (mounted [host_ul [''a'']])
   \<and> render_again (ul [''a'']) (render (ul [''a'', ''b'']) (Some mount_target) new_vdom)
     = (Some (mounted [host_ul [''b'']]),
        \<lparr>currentTree = Some (ul [''a'']),
         rootElement = Some (mounted [host_ul [''b'']]),
         vdom_pluginSystem = True, render_hooks = 2\<rparr>, None)"
proof -
  have 1: "patch (Some (mounted [host_ul [''a'', ''b'']])) (Some (ul [''a'', ''b'']))
          (Some (ul [''a'', ''c''])) = (Some (mounted [host_ul [''c'', ''b'']]), None)"
    by (simp add: patch.simps ul_def host_ul_def mounted_def updateProperties_def
          object_literal_def createTextNode_def)
  have 2: "patch (Some (mounted [host_ul [''a'', ''b'']])) (Some (ul [''a'', ''b'']))
          (Some (ul [''a''])) = (Some (mounted [host_ul [''b'']]), None)"
    by (simp add: patch.simps ul_def host_ul_def mounted_def updateProperties_def
          object_literal_def createTextNode_def)
  have 3: "render_again (ul [''a'', ''c'']) (render (ul [''a'', ''b'']) (Some mount_target) new_vdom)
     = (Some (mounted [host_ul [''c'', ''b'']]),
        \<lparr>currentTree = Some (ul [''a'', ''c'']),
         rootElement = Some (mounted [host_ul [''c'', ''b'']]),
         vdom_pluginSystem = True, render_hooks = 2\<rparr>, None)"
    by (simp only: second_render[OF present_ul] createDOM_ul 1) simp
  have 4: "render_again (ul [''a'']) (render (ul [''a'', ''b'']) (Some mount_target) new_vdom)
     = (Some (mounted [host_ul [''b'']]),
        \<lparr>currentTree = Some (ul [''a'']),
         rootElement = Some (mounted [host_ul [''b'']]),
         vdom_pluginSystem = True, render_hooks = 2\<rparr>, None)"
    by (simp only: second_render[OF present_ul] createDOM_ul 2) simp
  show ?thesis
    unfolding 3 4 by (simp add: first_render present_ul createDOM_ul)
qed

subsection \<open>Patching a tree to itself\<close>

lemma keys_foldl_update:
  "fst ` set (foldl (\<lambda>acc kv. AList.update (fst kv) (snd kv) acc) init kvs)
     = fst ` set init \<union> fst ` set kvs"
  by (induction kvs arbitrary: init) (auto simp: dom_update)

lemma get_prop_defined:
  assumes "list_all (\<lambda>kv. snd kv \<noteq> PNull \<and> snd kv \<noteq> PUndefined) ps" "k \<in> fst ` set ps"
  shows "get_prop ps k \<noteq> PNull \<and> get_prop ps k \<noteq> PUndefined"
proof -
  from assms(2) obtain v where m: "map_of ps k = Some v"
    by (metis domD dom_map_of_conv_image_fst)
  then have "(k, v) \<in> set ps" by (rule map_of_SomeD)
  with assms(1) have "v \<noteq> PNull \<and> v \<noteq> PUndefined" by (auto simp: list_all_iff)
  with m show ?thesis by (simp add: get_prop_def)
qed

lemma updateProperty_same:
  assumes "list_all (\<lambda>kv. snd kv \<noteq> PNull \<and> snd kv \<noteq> PUndefined) ps" "k \<in> fst ` set ps"
  shows "updateProperty ps ps k el = (el, None)"
  using get_prop_defined[OF assms] by (simp add: updateProperty_def)

lemma updateProperty_each_same:
  assumes "list_all (\<lambda>kv. snd kv \<noteq> PNull \<and> snd kv \<noteq> PUndefined) ps" "set ks \<subseteq> fst ` set ps"
  shows "updateProperty_each ps ps ks el = (el, None)"
  using assms(2) by (induction ks) (simp_all add: updateProperty_same[OF assms(1)])

lemma updateProperties_same:
  assumes "list_all (\<lambda>kv. snd kv \<noteq> PNull \<and> snd kv \<noteq> PUndefined) ps"
  shows "updateProperties el ps ps = (el, None)"
proof (cases el)
  case None
  then show ?thesis by (simp add: updateProperties_def)
next
  case (Some e)
  have "set (map fst (object_literal (ps @ ps))) \<subseteq> fst ` set ps"
    by (simp add: object_literal_def keys_foldl_update)
  from updateProperty_each_same[OF assms this] Some show ?thesis
    by (simp add: updateProperties_def)
qed

lemma with_firstChild_same: "with_firstChild p (firstChild p) = p"
  by (cases p rule: firstChild.cases) simp_all

lemma isVNodeChanged_same: "\<not> absent (Some v) \<Longrightarrow> \<not> isVNodeChanged v v"
  by (cases v) simp_all

lemma patch_children_same:
  assumes "\<And>c p. c \<in> set cs \<Longrightarrow> fst (patch p (Some c) (Some c)) = p"
  shows "fst (patch_children el cs cs) = el"
  using assms
proof (induction cs arbitrary: el)
  case Nil
  then show ?case by (simp add: patch.simps)
next
  case (Cons c cs)
  obtain el' err where r: "patch el (Some c) (Some c) = (el', err)" by (cases "patch el (Some c) (Some c)")
  with Cons.prems[of c el] have e: "el' = el" by simp
  show ?case
  proof (cases err)
    case None
    with r e Cons.IH[of el] Cons.prems show ?thesis by (simp add: patch.simps)
  next
    case (Some x)
    with r e show ?thesis by (simp add: patch.simps)
  qed
qed

lemma patch_structured_same:
  assumes ps: "list_all (\<lambda>kv. snd kv \<noteq> PNull \<and> snd kv \<noteq> PUndefined) (vnode_props v)"
    and cs: "\<And>c p. c \<in> set (vnode_children v) \<Longrightarrow> fst (patch p (Some c) (Some c)) = p"
  shows "fst (patch p (Some v) (Some v)) = p"
proof (cases "absent (Some v)")
  case True
  then show ?thesis by (simp add: patch.simps)
next
  case False
  note ch = isVNodeChanged_same[OF False]
  show ?thesis
  proof (cases "has_tag v")
    case False
    with \<open>\<not> absent (Some v)\<close> ch show ?thesis by (simp add: patch.simps)
  next
    case True
    show ?thesis
    proof (cases p)
      case None
      with True \<open>\<not> absent (Some v)\<close> ch show ?thesis by (simp add: patch.simps)
    next
      case (Some h)
      obtain el' err where r:
        "patch_children (firstChild h) (vnode_children v) (vnode_children v) = (el', err)"
        by (cases "patch_children (firstChild h) (vnode_children v) (vnode_children v)")
      with patch_children_same[of "vnode_children v" "firstChild h"] cs
      have "el' = firstChild h" by simp
      with r Some True \<open>\<not> absent (Some v)\<close> ch show ?thesis
        by (simp add: patch.simps updateProperties_same[OF ps] with_firstChild_same)
    qed
  qed
qed

lemma patch_same_tree_keeps_host:
  "defined_props v \<Longrightarrow> fst (patch p (Some v) (Some v)) = p"
proof (induction v arbitrary: p)
  case (VText s)
  show ?case by (rule patch_structured_same) simp_all
next
  case (VNumber n)
  show ?case by (rule patch_structured_same) simp_all
next
  case (VElement t ps cs)
  show ?case
  proof (rule patch_structured_same)
    show "list_all (\<lambda>kv. snd kv \<noteq> PNull \<and> snd kv \<noteq> PUndefined) (vnode_props (VElement t ps cs))"
      using VElement.prems by simp
    fix c p assume "c \<in> set (vnode_children (VElement t ps cs))"
    with VElement.IH[of c p] VElement.prems show "fst (patch p (Some c) (Some c)) = p"
      by (auto simp: list_all_iff)
  qed
next
  case (VComponent f r ps cs)
  show ?case
  proof (rule patch_structured_same)
    show "list_all (\<lambda>kv. snd kv \<noteq> PNull \<and> snd kv \<noteq> PUndefined) (vnode_props (VComponent f r ps cs))"
      using VComponent.prems by simp
    fix c p assume "c \<in> set (vnode_children (VComponent f r ps cs))"
    with VComponent.IH(2)[of c p] VComponent.prems show "fst (patch p (Some c) (Some c)) = p"
      by (auto simp: list_all_iff)
  qed
qed

text \<open>
  Claim C8, evaluated.  A \<open>div\<close> with the property \<open>title: null\<close> is mounted with the attribute
  \<open>title="null"\<close>, since \<open>createDOM\<close> hands every value to \<open>setAttribute\<close>.  Rendering the same
  tree again removes that attribute, since \<open>updateProperties\<close> takes \<open>null\<close> for "no such
  property".  By \<open>patch_same_tree_keeps_host\<close> the host is left alone when no property of the
  tree is \<open>null\<close> or \<open>undefined\<close>.
\<close>

theorem render_twice_removes_null_attribute:
  "fst (render titled_div (Some mount_target) new_vdom)
     = Some (mounted [HElement ''div'' [(''title'', ''null'')] [] [] []])
   \<and> render_again titled_div (render titled_div (Some mount_target) new_vdom)
     = (Some (mounted [HElement ''div'' [] [] [] []]),
        \<lparr>currentTree = Some titled_div,
         rootElement = Some (mounted [HElement ''div'' [] [] [] []]),
         vdom_pluginSystem = True, render_hooks = 2\<rparr>, None)"
proof -
  have c: "createDOM titled_div = HElement ''div'' [(''title'', ''null'')] [] [] []"
    by (simp add: titled_div_def createElement_host_def createDOM_prop_def starts_with_on_def)
  have p: "\<not> absent (Some titled_div)" by (simp add: titled_div_def)
  have q: "patch (Some (mounted [HElement ''div'' [(''title'', ''null'')] [] [] []]))
          (Some titled_div) (Some titled_div)
        = (Some (mounted [HElement ''div'' [] [] [] []]), None)"
    by (simp add: patch.simps titled_div_def mounted_def updateProperties_def
          object_literal_def updateProperty_def get_prop_def starts_with_on_def)
  have r: "render_again titled_div (render titled_div (Some mount_target) new_vdom)
     = (Some (mounted [HElement ''div'' [] [] [] []]),
        \<lparr>currentTree = Some titled_div,
         rootElement = Some (mounted [HElement ''div'' [] [] [] []]),
         vdom_pluginSystem = True, render_hooks = 2\<rparr>, None)"
    by (simp only: second_render[OF p] c q) simp
  show ?thesis
    unfolding r by (simp add: first_render p c)
qed

end
